theory Spec2Isabelle
  imports Complex_Main "HOL-Library.AList" "HOL-Library.Sublist" "HOL-Library.Multiset"
    "HOL-Library.List_Lexorder" "HOL-Library.Product_Lexorder" "HOL-Library.Char_ord"
begin

section \<open>The trie of src/trie.py\<close>

subsection \<open>Data model\<close>

text \<open>
  A \<open>TrieNode\<close> has three slots: \<open>children\<close> (a Python dict from symbol to node),
  \<open>is_word\<close> and \<open>freq\<close>.  A Python dict keeps its keys in insertion order, has no
  duplicate key, a store on a present key replaces the value in place and a store on
  an absent key appends: this is an association list with \<open>map_of\<close> for the lookup,
  \<open>AList.update\<close> for the store and \<open>AList.delete\<close> for \<open>del\<close>.  The symbol type is a
  parameter (Python: one code point), ordered where \<open>complete\<close> sorts.  A weight is a
  Python float; the code only stores, negates and compares it, and on finite floats
  these agree with the same operations on the reals (a NaN weight is outside the model,
  as it is outside the finite weights the specification admits).  The recursive helpers
  \<open>_remove\<close>, \<open>dfs\<close> and \<open>height\<close> are modelled as total functions: the interpreter's
  recursion limit is a resource bound, not part of what they compute.
\<close>

datatype 'a TrieNode =
  TrieNode (children: "('a \<times> 'a TrieNode) list") (is_word: bool) (freq: real)

text \<open>\<open>TrieNode()\<close>: no children, not a word, weight 0.0.\<close>

definition new_node :: "'a TrieNode" where
  "new_node = TrieNode [] False 0"

text \<open>The \<open>Trie\<close> object: the root and the two counters (Python ints).\<close>

record 'a Trie =
  root_node :: "'a TrieNode"
  words :: int
  nodes :: int

text \<open>\<open>Trie.__init__\<close>.\<close>

definition init :: "'a Trie" where
  "init = \<lparr>root_node = new_node, words = 0, nodes = 1\<rparr>"

subsection \<open>insert\<close>

text \<open>
  The loop of \<open>insert\<close> walks down from the root, creating the missing child on the
  way (one more node each time), then marks the node it lands on.  The model threads
  the two counters through the walk and rebuilds the path on the way back, since the
  Python mutates the nodes in place.
\<close>

fun insert_walk :: "'a list \<Rightarrow> real \<Rightarrow> 'a TrieNode \<Rightarrow> int \<times> int \<Rightarrow> 'a TrieNode \<times> int \<times> int" where
  "insert_walk [] f node (w, m) =
     (TrieNode (children node) True f, (if \<not> is_word node then w + 1 else w), m)"
| "insert_walk (c # cs) f node (w, m) =
     (case map_of (children node) c of
        None \<Rightarrow>
          (case insert_walk cs f new_node (w, m + 1) of
             (child, w', m') \<Rightarrow>
               (TrieNode (AList.update c child (children node)) (is_word node) (freq node), w', m'))
      | Some nxt \<Rightarrow>
          (case insert_walk cs f nxt (w, m) of
             (child, w', m') \<Rightarrow>
               (TrieNode (AList.update c child (children node)) (is_word node) (freq node), w', m')))"

definition insert_trie :: "'a list \<Rightarrow> real \<Rightarrow> 'a Trie \<Rightarrow> 'a Trie" where
  "insert_trie word f t =
     (case insert_walk word f (root_node t) (words t, nodes t) of
        (r, w, m) \<Rightarrow> \<lparr>root_node = r, words = w, nodes = m\<rparr>)"

subsection \<open>contains\<close>

fun contains_from :: "'a TrieNode \<Rightarrow> 'a list \<Rightarrow> bool" where
  "contains_from node [] = is_word node"
| "contains_from node (c # cs) =
     (case map_of (children node) c of
        None \<Rightarrow> False
      | Some nxt \<Rightarrow> contains_from nxt cs)"

definition contains :: "'a Trie \<Rightarrow> 'a list \<Rightarrow> bool" where
  "contains t word = contains_from (root_node t) word"

subsection \<open>remove\<close>

text \<open>
  The inner \<open>_remove(node, i)\<close> works on the suffix of the word from index \<open>i\<close>; it
  returns \<open>should_delete\<close> and changes the node, \<open>self._words\<close>, \<open>self._nodes\<close> and the
  flag \<open>removed\<close>, which the model passes along as a triple.
\<close>

fun remove_rec :: "'a list \<Rightarrow> 'a TrieNode \<Rightarrow> int \<times> int \<times> bool
    \<Rightarrow> bool \<times> 'a TrieNode \<times> int \<times> int \<times> bool" where
  "remove_rec [] node (w, m, removed) =
     (if \<not> is_word node then (False, node, w, m, removed)
      else (children node = [], TrieNode (children node) False 0, w - 1, m, True))"
| "remove_rec (ch # rest) node (w, m, removed) =
     (case map_of (children node) ch of
        None \<Rightarrow> (False, node, w, m, removed)
      | Some nxt \<Rightarrow>
          (case remove_rec rest nxt (w, m, removed) of
             (should_delete, child, w', m', removed') \<Rightarrow>
               if should_delete then
                 (let cs = AList.delete ch (AList.update ch child (children node))
                  in (\<not> is_word node \<and> cs = [],
                      TrieNode cs (is_word node) (freq node), w', m' - 1, removed'))
               else
                 (False, TrieNode (AList.update ch child (children node)) (is_word node) (freq node),
                  w', m', removed')))"

text \<open>\<open>remove\<close> ignores what \<open>_remove\<close> returns at the root and answers \<open>removed\<close>.\<close>

definition remove :: "'a list \<Rightarrow> 'a Trie \<Rightarrow> bool \<times> 'a Trie" where
  "remove word t =
     (case remove_rec word (root_node t) (words t, nodes t, False) of
        (should_delete, r, w, m, removed) \<Rightarrow> (removed, \<lparr>root_node = r, words = w, nodes = m\<rparr>))"

subsection \<open>complete\<close>

text \<open>The first loop of \<open>complete\<close>: the node the prefix leads to, if any.\<close>

fun descend :: "'a TrieNode \<Rightarrow> 'a list \<Rightarrow> 'a TrieNode option" where
  "descend node [] = Some node"
| "descend node (c # cs) =
     (case map_of (children node) c of
        None \<Rightarrow> None
      | Some nxt \<Rightarrow> descend nxt cs)"

text \<open>
  The inner \<open>dfs(n, path)\<close> appends \<open>(-n.freq, path)\<close> for a word node, then visits the
  children in dict order; the model returns what the call appends to \<open>heap\<close>.
\<close>

fun dfs :: "'a TrieNode \<Rightarrow> 'a list \<Rightarrow> (real \<times> 'a list) list" where
  "dfs (TrieNode cs w f) path =
     (if w then [(- f, path)] else []) @
     concat (map (\<lambda>p. dfs (snd p) (path @ [fst p])) cs)"

text \<open>
  The slice \<open>heap[:k]\<close>: the first \<open>k\<close> entries for \<open>k \<ge> 0\<close>; for a negative \<open>k\<close> the
  bound counts from the end, so the last \<open>-k\<close> entries are dropped.
\<close>

definition slice_to :: "int \<Rightarrow> 'b list \<Rightarrow> 'b list" where
  "slice_to k xs = (if 0 \<le> k then take (nat k) xs else take (nat (int (length xs) + k)) xs)"

text \<open>
  \<open>heap.sort()\<close> orders the tuples \<open>(-freq, word)\<close> by Python's tuple comparison: by
  the first component, then by the string, which is the lexicographic order on pairs
  and on lists.
\<close>

definition complete_trie :: "'a::linorder Trie \<Rightarrow> 'a list \<Rightarrow> int \<Rightarrow> 'a list list" where
  "complete_trie t pre k =
     (case descend (root_node t) pre of
        None \<Rightarrow> []
      | Some node \<Rightarrow> map snd (slice_to k (sort (dfs node pre))))"

subsection \<open>stats and items\<close>

fun height :: "'a TrieNode \<Rightarrow> nat" where
  "height (TrieNode cs w f) =
     (if cs = [] then 1 else 1 + Max (set (map (\<lambda>p. height (snd p)) cs)))"

definition stats :: "'a Trie \<Rightarrow> int \<times> nat \<times> int" where
  "stats t = (words t, height (root_node t), nodes t)"

fun items_dfs :: "'a TrieNode \<Rightarrow> 'a list \<Rightarrow> ('a list \<times> real) list" where
  "items_dfs (TrieNode cs w f) path =
     (if w then [(path, f)] else []) @
     concat (map (\<lambda>p. items_dfs (snd p) (path @ [fst p])) cs)"

definition items :: "'a Trie \<Rightarrow> ('a list \<times> real) list" where
  "items t = items_dfs (root_node t) []"


subsection \<open>Calls on a trie object\<close>

text \<open>
  One call of a method: the value it returns and the trie afterwards.  \<open>insert\<close> and
  \<open>remove\<close> assign to slots of the trie and of its nodes; \<open>contains\<close>, \<open>complete\<close>,
  \<open>stats\<close> and \<open>items\<close> only read them (their only writes go to the local lists
  \<open>heap\<close> and \<open>result\<close>), so here the trie afterwards is the trie before.  That the
  reading methods write to no object is not taken from this function: it is shown on
  their translation over the store of objects, further down.
\<close>

datatype 'a call =
  Insert "'a list" real
| Remove "'a list"
| Contains "'a list"
| Complete "'a list" int
| Stats
| Items

datatype 'a answer =
  NoValue
| Truth bool
| WordList "'a list list"
| Counts int nat int
| Pairs "('a list \<times> real) list"

fun exec :: "'a::linorder call \<Rightarrow> 'a Trie \<Rightarrow> 'a answer \<times> 'a Trie" where
  "exec (Insert word f) t = (NoValue, insert_trie word f t)"
| "exec (Remove word) t = (case remove word t of (b, t') \<Rightarrow> (Truth b, t'))"
| "exec (Contains word) t = (Truth (contains t word), t)"
| "exec (Complete pre k) t = (WordList (complete_trie t pre k), t)"
| "exec Stats t = (case stats t of (w, h, m) \<Rightarrow> (Counts w h m, t))"
| "exec Items t = (Pairs (items t), t)"

fun run :: "'a::linorder call list \<Rightarrow> 'a Trie \<Rightarrow> 'a Trie" where
  "run [] t = t"
| "run (c # cs) t = run cs (snd (exec c t))"

text \<open>
  Rebuilding a trie from pairs, as the \<open>load\<close> command of the command interpreter
  does: a fresh trie, then one \<open>insert\<close> per pair, in order.
\<close>

fun insert_all :: "('a list \<times> real) list \<Rightarrow> 'a Trie \<Rightarrow> 'a Trie" where
  "insert_all [] t = t"
| "insert_all (p # ps) t = insert_all ps (insert_trie (fst p) (snd p) t)"

definition rebuild :: "('a list \<times> real) list \<Rightarrow> 'a Trie" where
  "rebuild ps = insert_all ps init"

subsection \<open>The reading methods on the objects themselves\<close>

text \<open>
  Whether \<open>complete\<close>, \<open>stats\<close> and \<open>items\<close> change the trie is a question about the
  objects, so these three methods are translated a second time, statement by statement,
  over an explicit store: a \<open>TrieNode\<close> object lives at a reference, its \<open>children\<close> dict
  maps a symbol to the reference of the child, and the state holds the objects and the
  three slots of the \<open>Trie\<close> object.  Every function takes the state and returns it with
  its value, so a write to a slot would show in the state returned.
\<close>

record 'a node_obj =
  o_children :: "('a \<times> nat) list"
  o_is_word :: bool
  o_freq :: real

record 'a memory =
  objs :: "(nat \<times> 'a node_obj) list"
  self_root :: nat
  self_words :: int
  self_nodes :: int

text \<open>
  Reading the slots of the object at a reference.  A reference with no object behind it
  does not occur in Python; the model has no result (\<open>None\<close>) there.
\<close>

definition load :: "nat \<Rightarrow> 'a memory \<Rightarrow> ('a node_obj \<times> 'a memory) option" where
  "load r s = (case map_of (objs s) r of None \<Rightarrow> None | Some ob \<Rightarrow> Some (ob, s))"

text \<open>
  The first loop of \<open>complete\<close>: \<open>node = self.root\<close>, then one step per symbol of the
  prefix; a symbol with no edge ends the method (\<open>return []\<close>, the inner \<open>None\<close>).
\<close>

fun seek :: "nat \<Rightarrow> 'a list \<Rightarrow> 'a memory \<Rightarrow> (nat option \<times> 'a memory) option" where
  "seek node [] s = Some (Some node, s)"
| "seek node (c # cs) s =
     (case load node s of
        None \<Rightarrow> None
      | Some (ob, s1) \<Rightarrow>
          (case map_of (o_children ob) c of
             None \<Rightarrow> Some (None, s1)
           | Some nxt \<Rightarrow> seek nxt cs s1))"

text \<open>
  The inner \<open>dfs(n, path)\<close> of \<open>complete\<close>, with the local list \<open>heap\<close> passed along
  beside the state.  The loop \<open>for ch in n.children: dfs(n.children[ch], path + ch)\<close>
  runs over the keys and reads \<open>n.children[ch]\<close> from the state at each round
  (\<open>dfs_loop\<close>); a missing key would be a KeyError (\<open>None\<close>).  The recursion follows
  references, so it need not end on an arbitrary store: the first argument bounds its
  depth, and a call that exceeds it has no result.
\<close>

fun dfs_m :: "nat \<Rightarrow> nat \<Rightarrow> 'a list \<Rightarrow> (real \<times> 'a list) list \<times> 'a memory
      \<Rightarrow> ((real \<times> 'a list) list \<times> 'a memory) option"
  and dfs_loop :: "nat \<Rightarrow> nat \<Rightarrow> 'a list \<Rightarrow> 'a list \<Rightarrow> (real \<times> 'a list) list \<times> 'a memory
      \<Rightarrow> ((real \<times> 'a list) list \<times> 'a memory) option" where
  "dfs_m 0 n path hs = None"
| "dfs_m (Suc fuel) n path (heap, s) =
     (case load n s of
        None \<Rightarrow> None
      | Some (ob, s1) \<Rightarrow>
          dfs_loop fuel n (map fst (o_children ob)) path
            (if o_is_word ob then heap @ [(- o_freq ob, path)] else heap, s1))"
| "dfs_loop fuel n [] path hs = Some hs"
| "dfs_loop fuel n (ch # rest) path (heap, s) =
     (case load n s of
        None \<Rightarrow> None
      | Some (ob, s1) \<Rightarrow>
          (case map_of (o_children ob) ch of
             None \<Rightarrow> None
           | Some nxt \<Rightarrow>
               (case dfs_m fuel nxt (path @ [ch]) (heap, s1) of
                  None \<Rightarrow> None
                | Some hs \<Rightarrow> dfs_loop fuel n rest path hs)))"

definition complete_m :: "nat \<Rightarrow> 'a::linorder list \<Rightarrow> int \<Rightarrow> 'a memory \<Rightarrow> ('a list list \<times> 'a memory) option" where
  "complete_m fuel pre k s =
     (case seek (self_root s) pre s of
        None \<Rightarrow> None
      | Some (None, s1) \<Rightarrow> Some ([], s1)
      | Some (Some node, s1) \<Rightarrow>
          (case dfs_m fuel node pre ([], s1) of
             None \<Rightarrow> None
           | Some (heap, s2) \<Rightarrow> Some (map snd (slice_to k (sort heap)), s2)))"

text \<open>
  The inner \<open>height(node)\<close> of \<open>stats\<close>; \<open>heights\<close> is the generator
  \<open>height(c) for c in node.children.values()\<close>.  \<open>stats\<close> then reads the two counters.
\<close>

fun height_m :: "nat \<Rightarrow> nat \<Rightarrow> 'a memory \<Rightarrow> (nat \<times> 'a memory) option"
  and heights :: "nat \<Rightarrow> nat list \<Rightarrow> 'a memory \<Rightarrow> (nat list \<times> 'a memory) option" where
  "height_m 0 node s = None"
| "height_m (Suc fuel) node s =
     (case load node s of
        None \<Rightarrow> None
      | Some (ob, s1) \<Rightarrow>
          if o_children ob = [] then Some (1, s1)
          else
            (case heights fuel (map snd (o_children ob)) s1 of
               None \<Rightarrow> None
             | Some (hs, s2) \<Rightarrow> Some (1 + Max (set hs), s2)))"
| "heights fuel [] s = Some ([], s)"
| "heights fuel (c # cs) s =
     (case height_m fuel c s of
        None \<Rightarrow> None
      | Some (h, s1) \<Rightarrow>
          (case heights fuel cs s1 of
             None \<Rightarrow> None
           | Some (hs, s2) \<Rightarrow> Some (h # hs, s2)))"

definition stats_m :: "nat \<Rightarrow> 'a memory \<Rightarrow> ((int \<times> nat \<times> int) \<times> 'a memory) option" where
  "stats_m fuel s =
     (case height_m fuel (self_root s) s of
        None \<Rightarrow> None
      | Some (h, s1) \<Rightarrow> Some ((self_words s1, h, self_nodes s1), s1))"

text \<open>
  The inner \<open>dfs(node, path)\<close> of \<open>items\<close>, which runs over the pairs of
  \<open>node.children.items()\<close>, with the local list \<open>result\<close> passed along.
\<close>

fun items_dfs_m :: "nat \<Rightarrow> nat \<Rightarrow> 'a list \<Rightarrow> ('a list \<times> real) list \<times> 'a memory
      \<Rightarrow> (('a list \<times> real) list \<times> 'a memory) option"
  and items_loop :: "nat \<Rightarrow> ('a \<times> nat) list \<Rightarrow> 'a list \<Rightarrow> ('a list \<times> real) list \<times> 'a memory
      \<Rightarrow> (('a list \<times> real) list \<times> 'a memory) option" where
  "items_dfs_m 0 node path rs = None"
| "items_dfs_m (Suc fuel) node path (result, s) =
     (case load node s of
        None \<Rightarrow> None
      | Some (ob, s1) \<Rightarrow>
          items_loop fuel (o_children ob) path
            (if o_is_word ob then result @ [(path, o_freq ob)] else result, s1))"
| "items_loop fuel [] path rs = Some rs"
| "items_loop fuel (p # rest) path rs =
     (case items_dfs_m fuel (snd p) (path @ [fst p]) rs of
        None \<Rightarrow> None
      | Some rs' \<Rightarrow> items_loop fuel rest path rs')"

definition items_m :: "nat \<Rightarrow> 'a memory \<Rightarrow> (('a list \<times> real) list \<times> 'a memory) option" where
  "items_m fuel s = items_dfs_m fuel (self_root s) [] ([], s)"

subsection \<open>What the properties speak about\<close>

text \<open>
  A dict has no duplicate key.  On association lists this is a property of the value,
  \<open>keys_ok\<close>: at every node the keys of \<open>children\<close> are distinct.  Where a property
  below assumes \<open>keys_ok\<close>, it speaks of the association lists that stand for dicts;
  every trie the operations produce from a fresh one is of this kind.
\<close>

fun keys_ok :: "'a TrieNode \<Rightarrow> bool" where
  "keys_ok (TrieNode cs w f) = (distinct (map fst cs) \<and> list_all (\<lambda>p. keys_ok (snd p)) cs)"

text \<open>The nodes reachable from a node (itself included), and those that are words.\<close>

fun node_count :: "'a TrieNode \<Rightarrow> nat" where
  "node_count (TrieNode cs w f) = 1 + sum_list (map (\<lambda>p. node_count (snd p)) cs)"

fun word_count :: "'a TrieNode \<Rightarrow> nat" where
  "word_count (TrieNode cs w f) = (if w then 1 else 0) + sum_list (map (\<lambda>p. word_count (snd p)) cs)"

text \<open>A node is a dangling leaf when it is not a word and has no child.\<close>

definition dangling :: "'a TrieNode \<Rightarrow> bool" where
  "dangling n = (\<not> is_word n \<and> children n = [])"

text \<open>No node strictly below the given one is a dangling leaf.\<close>

fun no_dangling :: "'a TrieNode \<Rightarrow> bool" where
  "no_dangling (TrieNode cs w f) = list_all (\<lambda>p. \<not> dangling (snd p) \<and> no_dangling (snd p)) cs"

text \<open>
  The weight stored for a word: the \<open>freq\<close> slot of the node the word leads to, when
  that node is a word.
\<close>

definition stored :: "'a TrieNode \<Rightarrow> 'a list \<Rightarrow> real option" where
  "stored n word =
     (case descend n word of
        None \<Rightarrow> None
      | Some m \<Rightarrow> if is_word m then Some (freq m) else None)"

definition weight_of :: "'a Trie \<Rightarrow> 'a list \<Rightarrow> real option" where
  "weight_of t word = stored (root_node t) word"

text \<open>The order of the answer of \<open>complete\<close>: heavier first, equal weights by the word.\<close>

definition ranks_before :: "'a::linorder Trie \<Rightarrow> 'a list \<Rightarrow> 'a list \<Rightarrow> bool" where
  "ranks_before t u v =
     (case (weight_of t u, weight_of t v) of
        (Some a, Some b) \<Rightarrow> b < a \<or> (a = b \<and> u < v)
      | _ \<Rightarrow> False)"

text \<open>The list \<open>heap\<close> of \<open>complete\<close> before it is sorted, and its length.\<close>

definition heap_of :: "'a Trie \<Rightarrow> 'a list \<Rightarrow> (real \<times> 'a list) list" where
  "heap_of t pre = (case descend (root_node t) pre of None \<Rightarrow> [] | Some node \<Rightarrow> dfs node pre)"

definition match_count :: "'a Trie \<Rightarrow> 'a list \<Rightarrow> nat" where
  "match_count t pre = length (heap_of t pre)"

text \<open>
  The invariant of the data model: the dicts are dicts, the two counters count the
  reachable nodes and the reachable word nodes, and no dangling leaf hangs below the root.
\<close>

definition invariant :: "'a Trie \<Rightarrow> bool" where
  "invariant t =
     (keys_ok (root_node t) \<and>
      nodes t = int (node_count (root_node t)) \<and>
      words t = int (word_count (root_node t)) \<and>
      no_dangling (root_node t))"

text \<open>The node the walk of \<open>insert\<close> goes on from: the child there is, or a new one.\<close>

definition next_node :: "'a TrieNode \<Rightarrow> 'a \<Rightarrow> 'a TrieNode" where
  "next_node n c = (case map_of (children n) c of None \<Rightarrow> new_node | Some x \<Rightarrow> x)"

text \<open>
  The scenario of the specification: \<open>insert("cat", 5.0)\<close>, \<open>insert("car", 9.0)\<close>,
  \<open>insert("cart", 9.0)\<close> on a fresh trie.
\<close>

definition scenario :: "char Trie" where
  "scenario = insert_trie ''cart'' 9 (insert_trie ''car'' 9 (insert_trie ''cat'' 5 init))"

text \<open>
  The objects reachable from a reference form the trie \<open>n\<close>: the object there has the
  flag and the weight of \<open>n\<close>, its dict has the keys of \<open>n\<close> in the same order (distinct, as
  in a dict), and each child reference stands for the child of \<open>n\<close> under the same key.
  The states of the store that are tries are the ones related to some \<open>n\<close>.
\<close>

fun represents :: "(nat \<times> 'a node_obj) list \<Rightarrow> nat \<Rightarrow> 'a TrieNode \<Rightarrow> bool" where
  "represents m r (TrieNode cs w f) =
     (case map_of m r of
        None \<Rightarrow> False
      | Some ob \<Rightarrow>
          o_is_word ob = w \<and> o_freq ob = f \<and> distinct (map fst cs) \<and>
          list_all2 (\<lambda>p q. fst p = fst q \<and> represents m (snd p) (snd q)) (o_children ob) cs)"

text \<open>The trie value a state of the store stands for, once its root is known to be \<open>n\<close>.\<close>

definition as_trie :: "'a TrieNode \<Rightarrow> 'a memory \<Rightarrow> 'a Trie" where
  "as_trie n s = \<lparr>root_node = n, words = self_words s, nodes = self_nodes s\<rparr>"

text \<open>The scenario again, as six objects.\<close>

definition scenario_memory :: "char memory" where
  "scenario_memory =
     \<lparr>objs =
        [(0, \<lparr>o_children = [(CHR ''c'', 1)], o_is_word = False, o_freq = 0\<rparr>),
         (1, \<lparr>o_children = [(CHR ''a'', 2)], o_is_word = False, o_freq = 0\<rparr>),
         (2, \<lparr>o_children = [(CHR ''t'', 3), (CHR ''r'', 4)], o_is_word = False, o_freq = 0\<rparr>),
         (3, \<lparr>o_children = [], o_is_word = True, o_freq = 5\<rparr>),
         (4, \<lparr>o_children = [(CHR ''t'', 5)], o_is_word = True, o_freq = 9\<rparr>),
         (5, \<lparr>o_children = [], o_is_word = True, o_freq = 9\<rparr>)],
      self_root = 0, self_words = 3, self_nodes = 6\<rparr>"

section \<open>Properties\<close>

subsection \<open>Induction over a node and its children\<close>

lemma node_induct [case_names TrieNode]:
  assumes "\<And>cs w f. (\<And>c m. (c, m) \<in> set cs \<Longrightarrow> P m) \<Longrightarrow> P (TrieNode cs w f)"
  shows "P n"
proof (induction n)
  case (TrieNode cs w f)
  show ?case
  proof (rule assms)
    fix c m assume "(c, m) \<in> set cs"
    then show "P m" using TrieNode [of "(c, m)" m] by simp
  qed
qed

subsection \<open>Stored weights and insert\<close>

lemma stored_Nil [simp]: "stored n [] = (if is_word n then Some (freq n) else None)"
  by (simp add: stored_def)

lemma stored_Cons [simp]:
  "stored n (c # cs) = (case map_of (children n) c of None \<Rightarrow> None | Some m \<Rightarrow> stored m cs)"
  by (simp add: stored_def split: option.splits)

lemma stored_new_node [simp]: "stored new_node x = None"
  by (cases x) (simp_all add: new_node_def)

lemma contains_from_stored: "contains_from n x = (stored n x \<noteq> None)"
  by (induction x arbitrary: n) (simp_all split: option.splits)

lemma insert_walk_stored:
  "stored (fst (insert_walk word f n s)) x = (if x = word then Some f else stored n x)"
proof (induction word arbitrary: n s x)
  case Nil
  show ?case by (cases s; cases x) simp_all
next
  case (Cons c cs)
  obtain w m where s: "s = (w, m)" by (cases s)
  show ?case
  proof (cases x)
    case Nil
    then show ?thesis by (simp add: s split: option.splits prod.splits)
  next
    case (Cons d ds)
    show ?thesis
    proof (cases "map_of (children n) c")
      case None
      obtain child w' m' where r: "insert_walk cs f new_node (w, m + 1) = (child, w', m')"
        by (cases "insert_walk cs f new_node (w, m + 1)")
      have "stored child ds = (if ds = cs then Some f else None)"
        using Cons.IH [of new_node "(w, m + 1)" ds] r by simp
      then show ?thesis using None r
        by (auto simp: s Cons update_conv')
    next
      case (Some nxt)
      obtain child w' m' where r: "insert_walk cs f nxt (w, m) = (child, w', m')"
        by (cases "insert_walk cs f nxt (w, m)")
      have "stored child ds = (if ds = cs then Some f else stored nxt ds)"
        using Cons.IH [of nxt "(w, m)" ds] r by simp
      then show ?thesis using Some r
        by (auto simp: s Cons update_conv')
    qed
  qed
qed

lemma list_all_update:
  "list_all P al \<Longrightarrow> P (k, v) \<Longrightarrow> list_all P (AList.update k v al)"
  by (induction al) auto

lemma list_all_delete: "list_all P al \<Longrightarrow> list_all P (AList.delete k al)"
  by (induction al) auto

lemma sum_list_update_new:
  fixes g :: "'k \<times> 'v \<Rightarrow> nat"
  shows "map_of al k = None \<Longrightarrow>
    sum_list (map g (AList.update k v al)) = sum_list (map g al) + g (k, v)"
  by (induction al) (auto split: if_splits)

lemma sum_list_update_old:
  fixes g :: "'k \<times> 'v \<Rightarrow> nat"
  shows "map_of al k = Some v0 \<Longrightarrow>
    sum_list (map g (AList.update k v al)) + g (k, v0) = sum_list (map g al) + g (k, v)"
  by (induction al) (auto split: if_splits)

lemma sum_list_delete:
  fixes g :: "'k \<times> 'v \<Rightarrow> nat"
  shows "distinct (map fst al) \<Longrightarrow> map_of al k = Some v0 \<Longrightarrow>
    sum_list (map g (AList.delete k al)) + g (k, v0) = sum_list (map g al)"
proof (induction al)
  case Nil
  then show ?case by simp
next
  case (Cons p al)
  show ?case
  proof (cases "fst p = k")
    case True
    then have "k \<notin> fst ` set al" using Cons.prems by auto
    then have "AList.delete k al = al" by (simp add: delete_id)
    then show ?thesis using True Cons.prems by (cases p) auto
  next
    case False
    then show ?thesis using Cons by (cases p) auto
  qed
qed

lemma list_all_map_of:
  "list_all P al \<Longrightarrow> map_of al k = Some v \<Longrightarrow> P (k, v)"
  by (auto simp: list_all_iff dest: map_of_SomeD)

lemma keys_ok_new_node [simp]: "keys_ok new_node"
  by (simp add: new_node_def)

lemma keys_ok_child:
  "keys_ok n \<Longrightarrow> map_of (children n) c = Some m \<Longrightarrow> keys_ok m"
  by (cases n) (auto dest: list_all_map_of)

lemma keys_ok_update:
  "keys_ok n \<Longrightarrow> keys_ok m \<Longrightarrow> keys_ok (TrieNode (AList.update c m (children n)) w f)"
  by (cases n) (simp add: distinct_update list_all_update)

lemma keys_ok_delete:
  "keys_ok n \<Longrightarrow> keys_ok (TrieNode (AList.delete c (children n)) w f)"
  by (cases n) (simp add: distinct_delete list_all_delete)

lemma keys_ok_flags: "keys_ok n \<Longrightarrow> keys_ok (TrieNode (children n) w f)"
  by (cases n) simp

lemma insert_walk_Cons:
  "\<exists>s1. fst (insert_walk (c # cs) f n s) =
     TrieNode (AList.update c (fst (insert_walk cs f (next_node n c) s1)) (children n))
       (is_word n) (freq n)"
proof (cases s)
  case (Pair w m)
  show ?thesis
  proof (cases "map_of (children n) c")
    case None
    then have "fst (insert_walk (c # cs) f n s) =
       TrieNode (AList.update c (fst (insert_walk cs f (next_node n c) (w, m + 1))) (children n))
         (is_word n) (freq n)"
      by (simp add: Pair next_node_def split: prod.splits)
    then show ?thesis ..
  next
    case (Some nxt)
    then have "fst (insert_walk (c # cs) f n s) =
       TrieNode (AList.update c (fst (insert_walk cs f (next_node n c) (w, m))) (children n))
         (is_word n) (freq n)"
      by (simp add: Pair next_node_def split: prod.splits)
    then show ?thesis ..
  qed
qed

lemma keys_ok_next_node: "keys_ok n \<Longrightarrow> keys_ok (next_node n c)"
  by (auto simp: next_node_def split: option.splits dest: keys_ok_child)

lemma insert_walk_keys_ok:
  "keys_ok n \<Longrightarrow> keys_ok (fst (insert_walk word f n s))"
proof (induction word arbitrary: n s)
  case Nil
  then show ?case by (cases s; cases n) simp
next
  case (Cons c cs)
  obtain s1 where res: "fst (insert_walk (c # cs) f n s) =
     TrieNode (AList.update c (fst (insert_walk cs f (next_node n c) s1)) (children n))
       (is_word n) (freq n)"
    using insert_walk_Cons [of c cs f n s] by blast
  have "keys_ok (fst (insert_walk cs f (next_node n c) s1))"
    by (rule Cons.IH) (rule keys_ok_next_node [OF Cons.prems])
  with Cons.prems show ?case
    unfolding res by (rule keys_ok_update)
qed

lemma node_count_sel: "node_count n = 1 + sum_list (map (\<lambda>p. node_count (snd p)) (children n))"
  by (cases n) simp

lemma word_count_sel:
  "word_count n = (if is_word n then 1 else 0) + sum_list (map (\<lambda>p. word_count (snd p)) (children n))"
  by (cases n) simp

lemma node_count_new_node [simp]: "node_count new_node = 1"
  by (simp add: new_node_def)

lemma word_count_new_node [simp]: "word_count new_node = 0"
  by (simp add: new_node_def)

lemma insert_walk_counts:
  "insert_walk word f n (w, m) = (n', w', m') \<Longrightarrow>
     w' + int (word_count n) = w + int (word_count n') \<and>
     m' + int (node_count n) = m + int (node_count n')"
proof (induction word arbitrary: n w m n' w' m')
  case Nil
  then show ?case by (cases n) auto
next
  case (Cons c cs)
  show ?case
  proof (cases "map_of (children n) c")
    case None
    obtain child w1 m1 where r: "insert_walk cs f new_node (w, m + 1) = (child, w1, m1)"
      by (cases "insert_walk cs f new_node (w, m + 1)")
    from Cons.IH [OF r]
    have ih: "w1 = w + int (word_count child)" "m1 + 1 = m + 1 + int (node_count child)"
      by simp_all
    have n': "n' = TrieNode (AList.update c child (children n)) (is_word n) (freq n)"
      and c: "w' = w1" "m' = m1"
      using Cons.prems None r by simp_all
    have "word_count n' = word_count n + word_count child"
      using sum_list_update_new [OF None, of "\<lambda>p. word_count (snd p)" child]
      by (simp add: n' word_count_sel [of n])
    moreover have "node_count n' = node_count n + node_count child"
      using sum_list_update_new [OF None, of "\<lambda>p. node_count (snd p)" child]
      by (simp add: n' node_count_sel [of n])
    ultimately show ?thesis using ih c by simp
  next
    case (Some nxt)
    obtain child w1 m1 where r: "insert_walk cs f nxt (w, m) = (child, w1, m1)"
      by (cases "insert_walk cs f nxt (w, m)")
    from Cons.IH [OF r]
    have ih: "w1 + int (word_count nxt) = w + int (word_count child)"
      "m1 + int (node_count nxt) = m + int (node_count child)"
      by simp_all
    have n': "n' = TrieNode (AList.update c child (children n)) (is_word n) (freq n)"
      and c: "w' = w1" "m' = m1"
      using Cons.prems Some r by simp_all
    have "word_count n' + word_count nxt = word_count n + word_count child"
      using sum_list_update_old [OF Some, of "\<lambda>p. word_count (snd p)" child]
      by (simp add: n' word_count_sel [of n])
    moreover have "node_count n' + node_count nxt = node_count n + node_count child"
      using sum_list_update_old [OF Some, of "\<lambda>p. node_count (snd p)" child]
      by (simp add: n' node_count_sel [of n])
    ultimately show ?thesis using ih c by linarith
  qed
qed

lemma no_dangling_sel:
  "no_dangling n = list_all (\<lambda>p. \<not> dangling (snd p) \<and> no_dangling (snd p)) (children n)"
  by (cases n) simp

lemma no_dangling_new_node [simp]: "no_dangling new_node"
  by (simp add: new_node_def)

lemma no_dangling_child:
  "no_dangling n \<Longrightarrow> map_of (children n) c = Some m \<Longrightarrow> \<not> dangling m \<and> no_dangling m"
  by (cases n) (auto dest: list_all_map_of)

lemma no_dangling_next_node: "no_dangling n \<Longrightarrow> no_dangling (next_node n c)"
  by (auto simp: next_node_def split: option.splits dest: no_dangling_child)

lemma insert_walk_no_dangling:
  "no_dangling n \<Longrightarrow>
     no_dangling (fst (insert_walk word f n s)) \<and> \<not> dangling (fst (insert_walk word f n s))"
proof (induction word arbitrary: n s)
  case Nil
  then show ?case by (cases s; cases n) (simp add: dangling_def)
next
  case (Cons c cs)
  obtain s1 where res: "fst (insert_walk (c # cs) f n s) =
     TrieNode (AList.update c (fst (insert_walk cs f (next_node n c) s1)) (children n))
       (is_word n) (freq n)"
    using insert_walk_Cons [of c cs f n s] by blast
  have ih: "no_dangling (fst (insert_walk cs f (next_node n c) s1))"
    "\<not> dangling (fst (insert_walk cs f (next_node n c) s1))"
    using Cons.IH [OF no_dangling_next_node [OF Cons.prems]] by simp_all
  have "AList.update c (fst (insert_walk cs f (next_node n c) s1)) (children n) \<noteq> []"
    by (cases "children n") auto
  then have "\<not> dangling (fst (insert_walk (c # cs) f n s))"
    by (simp add: res dangling_def)
  moreover have "no_dangling (fst (insert_walk (c # cs) f n s))"
    using Cons.prems ih by (simp add: res no_dangling_sel [of n] list_all_update)
  ultimately show ?case by simp
qed

subsection \<open>remove\<close>

lemma remove_rec_absent:
  "\<not> contains_from n word \<Longrightarrow> remove_rec word n s = (False, n, s)"
proof (induction word arbitrary: n s)
  case Nil
  then show ?case by (cases s) auto
next
  case (Cons ch rest)
  obtain w m r where s: "s = (w, m, r)" by (cases s)
  show ?case
  proof (cases "map_of (children n) ch")
    case None
    then show ?thesis by (simp add: s)
  next
    case (Some nxt)
    then have "\<not> contains_from nxt rest" using Cons.prems by simp
    then have "remove_rec rest nxt (w, m, r) = (False, nxt, w, m, r)" by (rule Cons.IH)
    then show ?thesis using Some by (simp add: s update_triv)
  qed
qed

lemma remove_rec_Cons_None:
  "map_of (children n) ch = None \<Longrightarrow> remove_rec (ch # rest) n s = (False, n, s)"
  by (cases s) simp

lemma remove_rec_Cons_Some:
  assumes "map_of (children n) ch = Some nxt"
    and "remove_rec rest nxt (w, m, r) = (sd, child, w1, m1, r1)"
  shows "remove_rec (ch # rest) n (w, m, r) =
    (if sd then (\<not> is_word n \<and> AList.delete ch (children n) = [],
                 TrieNode (AList.delete ch (children n)) (is_word n) (freq n), w1, m1 - 1, r1)
     else (False, TrieNode (AList.update ch child (children n)) (is_word n) (freq n), w1, m1, r1))"
  using assms by (simp add: delete_update_same Let_def)

lemma remove_rec_should_delete:
  "remove_rec word n s = (True, n', s') \<Longrightarrow> dangling n'"
proof (cases word)
  case Nil
  assume "remove_rec word n s = (True, n', s')"
  then show ?thesis using Nil by (cases s) (auto simp: dangling_def split: if_splits)
next
  case (Cons ch rest)
  assume a: "remove_rec word n s = (True, n', s')"
  obtain w m r where s: "s = (w, m, r)" by (cases s)
  show ?thesis
  proof (cases "map_of (children n) ch")
    case None
    then show ?thesis using a Cons by (simp add: s)
  next
    case (Some nxt)
    obtain sd child w1 m1 r1 where rr: "remove_rec rest nxt (w, m, r) = (sd, child, w1, m1, r1)"
      by (cases "remove_rec rest nxt (w, m, r)")
    show ?thesis using a unfolding Cons s remove_rec_Cons_Some [OF Some rr]
      by (auto simp: dangling_def split: if_splits)
  qed
qed

lemma stored_dangling: "dangling n \<Longrightarrow> stored n x = None"
  by (cases x) (simp_all add: dangling_def)

lemma remove_rec_stored:
  "remove_rec word n s = (sd, n', s') \<Longrightarrow>
     stored n' x = (if x = word then None else stored n x)"
proof (induction word arbitrary: n s sd n' s' x)
  case Nil
  then show ?case by (cases s; cases x) (auto split: if_splits)
next
  case (Cons ch rest)
  obtain w m r where s: "s = (w, m, r)" by (cases s)
  show ?case
  proof (cases "map_of (children n) ch")
    case None
    then show ?thesis using Cons.prems by (cases x) (auto simp: s)
  next
    case (Some nxt)
    obtain sd1 child w1 m1 r1 where rr: "remove_rec rest nxt (w, m, r) = (sd1, child, w1, m1, r1)"
      by (cases "remove_rec rest nxt (w, m, r)")
    have ih: "stored child y = (if y = rest then None else stored nxt y)" for y
      by (rule Cons.IH [OF rr])
    note step = Cons.prems [unfolded s remove_rec_Cons_Some [OF Some rr]]
    show ?thesis
    proof (cases sd1)
      case True
      then have "dangling child"
        using rr remove_rec_should_delete [of rest nxt "(w, m, r)" child "(w1, m1, r1)"] by simp
      then have none: "stored child y = None" for y by (rule stored_dangling)
      have n': "n' = TrieNode (AList.delete ch (children n)) (is_word n) (freq n)"
        using step True by simp
      show ?thesis
      proof (cases x)
        case Nil
        then show ?thesis by (simp add: n')
      next
        case (Cons d ds)
        then show ?thesis using ih [of ds] none [of ds] Some
          by (auto simp: n' delete_conv')
      qed
    next
      case False
      have n': "n' = TrieNode (AList.update ch child (children n)) (is_word n) (freq n)"
        using step False by simp
      show ?thesis
      proof (cases x)
        case Nil
        then show ?thesis by (simp add: n')
      next
        case (Cons d ds)
        then show ?thesis using ih [of ds] Some
          by (auto simp: n' update_conv')
      qed
    qed
  qed
qed

lemma remove_rec_present:
  "contains_from n word \<Longrightarrow> remove_rec word n (w, m, r) = (sd, n', w', m', r') \<Longrightarrow>
     r' \<and> w' = w - 1"
proof (induction word arbitrary: n sd n' w' m' r')
  case Nil
  then show ?case by auto
next
  case (Cons ch rest)
  from Cons.prems(1) obtain nxt where Some: "map_of (children n) ch = Some nxt"
    and c: "contains_from nxt rest"
    by (auto split: option.splits)
  obtain sd1 child w1 m1 r1 where rr: "remove_rec rest nxt (w, m, r) = (sd1, child, w1, m1, r1)"
    by (cases "remove_rec rest nxt (w, m, r)")
  have "r1 \<and> w1 = w - 1" by (rule Cons.IH [OF c rr])
  then show ?case using Cons.prems(2) unfolding remove_rec_Cons_Some [OF Some rr]
    by (auto split: if_splits)
qed

lemma remove_rec_keys_ok:
  "keys_ok n \<Longrightarrow> remove_rec word n s = (sd, n', s') \<Longrightarrow> keys_ok n'"
proof (induction word arbitrary: n s sd n' s')
  case Nil
  then show ?case by (cases s; cases n) (auto split: if_splits)
next
  case (Cons ch rest)
  obtain w m r where s: "s = (w, m, r)" by (cases s)
  show ?case
  proof (cases "map_of (children n) ch")
    case None
    then show ?thesis using Cons.prems by (simp add: s)
  next
    case (Some nxt)
    obtain sd1 child w1 m1 r1 where rr: "remove_rec rest nxt (w, m, r) = (sd1, child, w1, m1, r1)"
      by (cases "remove_rec rest nxt (w, m, r)")
    have "keys_ok child"
      by (rule Cons.IH [OF keys_ok_child [OF Cons.prems(1) Some] rr])
    then show ?thesis
      using Cons.prems(2) Cons.prems(1) unfolding s remove_rec_Cons_Some [OF Some rr]
      by (auto split: if_splits intro: keys_ok_update keys_ok_delete)
  qed
qed

lemma node_count_dangling: "dangling n \<Longrightarrow> node_count n = 1 \<and> word_count n = 0"
  by (cases n) (simp add: dangling_def)

lemma remove_rec_counts:
  "keys_ok n \<Longrightarrow> remove_rec word n (w, m, r) = (sd, n', w', m', r') \<Longrightarrow>
     w' + int (word_count n) = w + int (word_count n') \<and>
     m' + int (node_count n) = m + int (node_count n')"
proof (induction word arbitrary: n sd n' w' m' r')
  case Nil
  then show ?case by (cases n) (auto split: if_splits)
next
  case (Cons ch rest)
  show ?case
  proof (cases "map_of (children n) ch")
    case None
    then show ?thesis using Cons.prems by simp
  next
    case (Some nxt)
    obtain sd1 child w1 m1 r1 where rr: "remove_rec rest nxt (w, m, r) = (sd1, child, w1, m1, r1)"
      by (cases "remove_rec rest nxt (w, m, r)")
    have ih: "w1 + int (word_count nxt) = w + int (word_count child)"
      "m1 + int (node_count nxt) = m + int (node_count child)"
      using Cons.IH [OF keys_ok_child [OF Cons.prems(1) Some] rr] by simp_all
    note step = Cons.prems(2) [unfolded remove_rec_Cons_Some [OF Some rr]]
    have d: "distinct (map fst (children n))" using Cons.prems(1) by (cases n) simp
    show ?thesis
    proof (cases sd1)
      case True
      then have "dangling child"
        using rr remove_rec_should_delete [of rest nxt "(w, m, r)" child "(w1, m1, r1)"] by simp
      then have dc: "node_count child = 1" "word_count child = 0"
        by (simp_all add: node_count_dangling)
      have n': "n' = TrieNode (AList.delete ch (children n)) (is_word n) (freq n)"
        and c: "w' = w1" "m' = m1 - 1"
        using step True by simp_all
      have "word_count n' + word_count nxt = word_count n"
        using sum_list_delete [OF d Some, of "\<lambda>p. word_count (snd p)"]
        by (simp add: n' word_count_sel [of n])
      moreover have "node_count n' + node_count nxt = node_count n"
        using sum_list_delete [OF d Some, of "\<lambda>p. node_count (snd p)"]
        by (simp add: n' node_count_sel [of n])
      ultimately show ?thesis using ih c dc by linarith
    next
      case False
      have n': "n' = TrieNode (AList.update ch child (children n)) (is_word n) (freq n)"
        and c: "w' = w1" "m' = m1"
        using step False by simp_all
      have "word_count n' + word_count nxt = word_count n + word_count child"
        using sum_list_update_old [OF Some, of "\<lambda>p. word_count (snd p)" child]
        by (simp add: n' word_count_sel [of n])
      moreover have "node_count n' + node_count nxt = node_count n + node_count child"
        using sum_list_update_old [OF Some, of "\<lambda>p. node_count (snd p)" child]
        by (simp add: n' node_count_sel [of n])
      ultimately show ?thesis using ih c by linarith
    qed
  qed
qed

lemma remove_rec_no_dangling:
  "no_dangling n \<Longrightarrow> remove_rec word n s = (sd, n', s') \<Longrightarrow>
     no_dangling n' \<and> (\<not> dangling n \<and> \<not> sd \<longrightarrow> \<not> dangling n')"
proof (induction word arbitrary: n s sd n' s')
  case Nil
  then show ?case by (cases s; cases n) (auto simp: dangling_def split: if_splits)
next
  case (Cons ch rest)
  obtain w m r where s: "s = (w, m, r)" by (cases s)
  show ?case
  proof (cases "map_of (children n) ch")
    case None
    then show ?thesis using Cons.prems by (simp add: s)
  next
    case (Some nxt)
    obtain sd1 child w1 m1 r1 where rr: "remove_rec rest nxt (w, m, r) = (sd1, child, w1, m1, r1)"
      by (cases "remove_rec rest nxt (w, m, r)")
    have nxt: "\<not> dangling nxt" "no_dangling nxt"
      using no_dangling_child [OF Cons.prems(1) Some] by simp_all
    have ih: "no_dangling child" "\<not> sd1 \<Longrightarrow> \<not> dangling child"
      using Cons.IH [OF nxt(2) rr] nxt(1) by simp_all
    note step = Cons.prems(2) [unfolded s remove_rec_Cons_Some [OF Some rr]]
    show ?thesis
    proof (cases sd1)
      case True
      have n': "n' = TrieNode (AList.delete ch (children n)) (is_word n) (freq n)"
        and sd: "sd = (\<not> is_word n \<and> AList.delete ch (children n) = [])"
        using step True by simp_all
      have "no_dangling n'"
        using Cons.prems(1) by (simp add: n' no_dangling_sel [of n] list_all_delete)
      moreover have "\<not> sd \<Longrightarrow> \<not> dangling n'"
        by (simp add: n' sd dangling_def)
      ultimately show ?thesis by simp
    next
      case False
      have n': "n' = TrieNode (AList.update ch child (children n)) (is_word n) (freq n)"
        using step False by simp
      have "no_dangling n'"
        using Cons.prems(1) ih False by (simp add: n' no_dangling_sel [of n] list_all_update)
      moreover have "AList.update ch child (children n) \<noteq> []"
        by (cases "children n") auto
      then have "\<not> dangling n'" by (simp add: n' dangling_def)
      ultimately show ?thesis by simp
    qed
  qed
qed

subsection \<open>The entries complete collects\<close>

lemma descend_append:
  "descend n (p @ x) = (case descend n p of None \<Rightarrow> None | Some m \<Rightarrow> descend m x)"
  by (induction p arbitrary: n) (simp_all split: option.splits)

lemma stored_append:
  "stored n (p @ x) = (case descend n p of None \<Rightarrow> None | Some m \<Rightarrow> stored m x)"
  by (simp add: stored_def descend_append split: option.splits)

lemma keys_ok_descend: "keys_ok n \<Longrightarrow> descend n p = Some m \<Longrightarrow> keys_ok m"
proof (induction p arbitrary: n)
  case Nil
  then show ?case by simp
next
  case (Cons c cs)
  then show ?case by (auto split: option.splits dest: keys_ok_child)
qed

lemma dfs_mem:
  "keys_ok n \<Longrightarrow>
     ((nf, u) \<in> set (dfs n path)) = (\<exists>x. u = path @ x \<and> stored n x = Some (- nf))"
proof (induction n arbitrary: path nf u rule: node_induct)
  case (TrieNode cs w f)
  have d: "distinct (map fst cs)" and k: "\<And>c m. (c, m) \<in> set cs \<Longrightarrow> keys_ok m"
    using TrieNode.prems by (auto simp: list_all_iff)
  have ih: "((nf, u) \<in> set (dfs m (path @ [c]))) = (\<exists>y. u = path @ c # y \<and> stored m y = Some (- nf))"
    if "(c, m) \<in> set cs" for c m
    using TrieNode.IH [OF that k [OF that], of nf u "path @ [c]"] by simp
  show ?case
  proof
    assume "(nf, u) \<in> set (dfs (TrieNode cs w f) path)"
    then consider "w" "nf = - f" "u = path"
      | c m where "(c, m) \<in> set cs" "(nf, u) \<in> set (dfs m (path @ [c]))"
      by (auto split: if_splits)
    then show "\<exists>x. u = path @ x \<and> stored (TrieNode cs w f) x = Some (- nf)"
    proof cases
      case 1
      then have "u = path @ [] \<and> stored (TrieNode cs w f) [] = Some (- nf)" by simp
      then show ?thesis by blast
    next
      case 2
      then obtain y where y: "u = path @ c # y" "stored m y = Some (- nf)"
        using ih by blast
      have "map_of cs c = Some m" using d 2(1) by simp
      then have "stored (TrieNode cs w f) (c # y) = Some (- nf)" using y by simp
      then show ?thesis using y(1) by blast
    qed
  next
    assume "\<exists>x. u = path @ x \<and> stored (TrieNode cs w f) x = Some (- nf)"
    then obtain x where x: "u = path @ x" "stored (TrieNode cs w f) x = Some (- nf)" by blast
    show "(nf, u) \<in> set (dfs (TrieNode cs w f) path)"
    proof (cases x)
      case Nil
      then show ?thesis using x by (auto split: if_splits)
    next
      case (Cons c y)
      then obtain m where m: "map_of cs c = Some m" "stored m y = Some (- nf)"
        using x(2) by (auto split: option.splits)
      then have in_cs: "(c, m) \<in> set cs" by (auto dest: map_of_SomeD)
      then have "(nf, u) \<in> set (dfs m (path @ [c]))"
        using ih [OF in_cs] m(2) x(1) Cons by blast
      then show ?thesis using in_cs by force
    qed
  qed
qed

lemma distinct_concat_map_keys:
  assumes "distinct (map fst cs)"
    and "\<And>p. p \<in> set cs \<Longrightarrow> distinct (g p)"
    and "\<And>p q. p \<in> set cs \<Longrightarrow> q \<in> set cs \<Longrightarrow> fst p \<noteq> fst q \<Longrightarrow> set (g p) \<inter> set (g q) = {}"
  shows "distinct (concat (map g cs))"
  using assms
proof (induction cs)
  case Nil
  then show ?case by simp
next
  case (Cons p cs)
  have "distinct (concat (map g cs))"
    using Cons.prems by (intro Cons.IH) auto
  moreover have "distinct (g p)" using Cons.prems(2) by simp
  moreover have "set (g p) \<inter> set (g q) = {}" if "q \<in> set cs" for q
  proof -
    have "fst p \<noteq> fst q" using Cons.prems(1) that by auto
    then show ?thesis using Cons.prems(3) [of p q] that by simp
  qed
  ultimately show ?case by auto
qed

lemma dfs_distinct: "keys_ok n \<Longrightarrow> distinct (map snd (dfs n path))"
proof (induction n arbitrary: path rule: node_induct)
  case (TrieNode cs w f)
  have d: "distinct (map fst cs)" and k: "\<And>c m. (c, m) \<in> set cs \<Longrightarrow> keys_ok m"
    using TrieNode.prems by (auto simp: list_all_iff)
  let ?g = "\<lambda>p. map snd (dfs (snd p) (path @ [fst p]))"
  have below: "\<exists>y. u = path @ fst p # y" if "p \<in> set cs" "u \<in> set (?g p)" for p u
  proof -
    obtain c m where p: "p = (c, m)" by (cases p)
    from that(2) obtain nf where "(nf, u) \<in> set (dfs m (path @ [c]))" by (auto simp: p)
    then show ?thesis using dfs_mem [OF k, of c m nf u "path @ [c]"] that(1) by (auto simp: p)
  qed
  have "distinct (concat (map ?g cs))"
  proof (rule distinct_concat_map_keys [OF d])
    fix p assume "p \<in> set cs"
    then show "distinct (?g p)" using TrieNode.IH [of "fst p" "snd p"] k [of "fst p" "snd p"] by simp
  next
    fix p q assume pq: "p \<in> set cs" "q \<in> set cs" "fst p \<noteq> fst q"
    show "set (?g p) \<inter> set (?g q) = {}"
    proof (rule ccontr)
      assume "set (?g p) \<inter> set (?g q) \<noteq> {}"
      then obtain u where "u \<in> set (?g p)" "u \<in> set (?g q)" by blast
      then obtain y z where "u = path @ fst p # y" "u = path @ fst q # z"
        using below pq(1,2) by blast
      then show False using pq(3) by simp
    qed
  qed
  moreover have "path \<notin> set (concat (map ?g cs))"
  proof
    assume "path \<in> set (concat (map ?g cs))"
    then obtain p where "p \<in> set cs" "path \<in> set (?g p)" by auto
    then obtain y where "path = path @ fst p # y" using below by blast
    then show False by simp
  qed
  ultimately show ?case by (simp add: map_concat comp_def)
qed

lemma items_dfs_dfs: "items_dfs n path = map (\<lambda>e. (snd e, - fst e)) (dfs n path)"
proof (induction n arbitrary: path rule: node_induct)
  case (TrieNode cs w f)
  have eq: "map (\<lambda>p. items_dfs (snd p) (path @ [fst p])) cs =
        map (\<lambda>p. map (\<lambda>e. (snd e, - fst e)) (dfs (snd p) (path @ [fst p]))) cs"
    using TrieNode.IH by (intro map_cong [OF refl]) (auto simp: prod_eq_iff)
  show ?case unfolding items_dfs.simps dfs.simps eq
    by (simp add: map_concat comp_def)
qed

lemma heap_of_mem:
  assumes "keys_ok (root_node t)"
  shows "((nf, u) \<in> set (heap_of t pre)) = (prefix pre u \<and> weight_of t u = Some (- nf))"
proof (cases "descend (root_node t) pre")
  case None
  then have "stored (root_node t) (pre @ x) = None" for x by (simp add: stored_append)
  then show ?thesis using None by (auto simp: heap_of_def weight_of_def prefix_def)
next
  case (Some node)
  then have "stored (root_node t) (pre @ x) = stored node x" for x by (simp add: stored_append)
  moreover have "keys_ok node" by (rule keys_ok_descend [OF assms Some])
  ultimately show ?thesis using Some
    by (auto simp: heap_of_def weight_of_def prefix_def dfs_mem)
qed

lemma heap_of_distinct: "keys_ok (root_node t) \<Longrightarrow> distinct (map snd (heap_of t pre))"
  by (auto simp: heap_of_def dfs_distinct split: option.splits dest: keys_ok_descend)

lemma slice_to_Nil [simp]: "slice_to k [] = []"
  by (simp add: slice_to_def)

lemma complete_trie_heap:
  "complete_trie t pre k = map snd (slice_to k (sort (heap_of t pre)))"
  by (simp add: complete_trie_def heap_of_def split: option.splits)

lemma sort_distinct_set:
  fixes xs ys :: "'b::linorder list"
  shows "distinct xs \<Longrightarrow> distinct ys \<Longrightarrow> set xs = set ys \<Longrightarrow> sort xs = sort ys"
  by (metis distinct_remdups_id sorted_list_of_set_sort_remdups)

lemma complete_trie_cong:
  assumes "keys_ok (root_node t)" "keys_ok (root_node t')" "weight_of t = weight_of t'"
  shows "complete_trie t pre k = complete_trie t' pre k"
proof -
  have "set (heap_of t pre) = set (heap_of t' pre)"
    using heap_of_mem [OF assms(1)] heap_of_mem [OF assms(2)] assms(3) by auto
  moreover have "distinct (heap_of t pre)" "distinct (heap_of t' pre)"
    using heap_of_distinct [OF assms(1)] heap_of_distinct [OF assms(2)]
    by (simp_all add: distinct_map)
  ultimately have "sort (heap_of t pre) = sort (heap_of t' pre)"
    by (intro sort_distinct_set)
  then show ?thesis by (simp add: complete_trie_heap)
qed

subsection \<open>The operations on the trie object\<close>

lemma contains_weight_of: "contains t word = (weight_of t word \<noteq> None)"
  by (simp add: contains_def weight_of_def contains_from_stored)

lemma insert_trie_root:
  "root_node (insert_trie word f t) = fst (insert_walk word f (root_node t) (words t, nodes t))"
  by (simp add: insert_trie_def split: prod.splits)

lemma weight_of_insert_trie:
  "weight_of (insert_trie word f t) x = (if x = word then Some f else weight_of t x)"
  by (simp add: weight_of_def insert_trie_root insert_walk_stored)

lemma insert_walk_present:
  "contains_from n word \<Longrightarrow> insert_walk word f n (w, m) = (n', w', m') \<Longrightarrow> w' = w \<and> m' = m"
proof (induction word arbitrary: n n' w' m')
  case Nil
  then show ?case by auto
next
  case (Cons c cs)
  from Cons.prems(1) obtain nxt where nxt: "map_of (children n) c = Some nxt" "contains_from nxt cs"
    by (auto split: option.splits)
  obtain child w1 m1 where r: "insert_walk cs f nxt (w, m) = (child, w1, m1)"
    by (cases "insert_walk cs f nxt (w, m)")
  have "w1 = w \<and> m1 = m" by (rule Cons.IH [OF nxt(2) r])
  then show ?case using Cons.prems(2) nxt(1) r by simp
qed

lemma insert_walk_absent:
  "\<not> contains_from n word \<Longrightarrow> insert_walk word f n (w, m) = (n', w', m') \<Longrightarrow> w' = w + 1"
proof (induction word arbitrary: n n' m w' m')
  case Nil
  then show ?case by auto
next
  case (Cons c cs)
  show ?case
  proof (cases "map_of (children n) c")
    case None
    obtain child w1 m1 where r: "insert_walk cs f new_node (w, m + 1) = (child, w1, m1)"
      by (cases "insert_walk cs f new_node (w, m + 1)")
    have "\<not> contains_from new_node cs" by (simp add: contains_from_stored)
    then have "w1 = w + 1" using r by (rule Cons.IH)
    then show ?thesis using Cons.prems(2) None r by simp
  next
    case (Some nxt)
    obtain child w1 m1 where r: "insert_walk cs f nxt (w, m) = (child, w1, m1)"
      by (cases "insert_walk cs f nxt (w, m)")
    have "\<not> contains_from nxt cs" using Cons.prems(1) Some by simp
    then have "w1 = w + 1" using r by (rule Cons.IH)
    then show ?thesis using Cons.prems(2) Some r by simp
  qed
qed

lemma insert_trie_present:
  "contains t word \<Longrightarrow> words (insert_trie word f t) = words t \<and> nodes (insert_trie word f t) = nodes t"
  by (auto simp: insert_trie_def contains_def split: prod.splits dest: insert_walk_present)

lemma insert_trie_absent:
  "\<not> contains t word \<Longrightarrow> words (insert_trie word f t) = words t + 1"
  by (auto simp: insert_trie_def contains_def split: prod.splits dest: insert_walk_absent)

lemma invariant_init: "invariant init"
  by (simp add: invariant_def init_def new_node_def)

lemma invariant_insert_trie: "invariant t \<Longrightarrow> invariant (insert_trie word f t)"
proof -
  assume inv: "invariant t"
  obtain r w m where iw: "insert_walk word f (root_node t) (words t, nodes t) = (r, w, m)"
    by (cases "insert_walk word f (root_node t) (words t, nodes t)")
  have r: "r = fst (insert_walk word f (root_node t) (words t, nodes t))" by (simp add: iw)
  have "keys_ok r" unfolding r using inv by (simp add: invariant_def insert_walk_keys_ok)
  moreover have "no_dangling r" unfolding r using inv by (simp add: invariant_def insert_walk_no_dangling)
  moreover have "w = int (word_count r)" "m = int (node_count r)"
    using insert_walk_counts [OF iw] inv by (simp_all add: invariant_def)
  ultimately show ?thesis by (simp add: invariant_def insert_trie_def iw)
qed

lemma remove_absent_eq: "\<not> contains t word \<Longrightarrow> remove word t = (False, t)"
  by (simp add: remove_def contains_def remove_rec_absent)

lemma remove_fst: "fst (remove word t) = contains t word"
proof (cases "contains t word")
  case False
  then show ?thesis by (simp add: remove_absent_eq)
next
  case True
  obtain sd r w m rm where rr: "remove_rec word (root_node t) (words t, nodes t, False) = (sd, r, w, m, rm)"
    by (cases "remove_rec word (root_node t) (words t, nodes t, False)")
  have "rm" using remove_rec_present [OF _ rr] True by (simp add: contains_def)
  then show ?thesis using True by (simp add: remove_def rr)
qed

lemma weight_of_remove:
  "weight_of (snd (remove word t)) x = (if x = word then None else weight_of t x)"
proof -
  obtain sd r w m rm where rr: "remove_rec word (root_node t) (words t, nodes t, False) = (sd, r, w, m, rm)"
    by (cases "remove_rec word (root_node t) (words t, nodes t, False)")
  show ?thesis using remove_rec_stored [OF rr, of x]
    by (simp add: weight_of_def remove_def rr)
qed

lemma invariant_remove: "invariant t \<Longrightarrow> invariant (snd (remove word t))"
proof -
  assume inv: "invariant t"
  obtain sd r w m rm where rr: "remove_rec word (root_node t) (words t, nodes t, False) = (sd, r, w, m, rm)"
    by (cases "remove_rec word (root_node t) (words t, nodes t, False)")
  have k: "keys_ok (root_node t)" and nd: "no_dangling (root_node t)"
    using inv by (simp_all add: invariant_def)
  have "keys_ok r" by (rule remove_rec_keys_ok [OF k rr])
  moreover have "no_dangling r" using remove_rec_no_dangling [OF nd rr] by simp
  moreover have "w = int (word_count r)" "m = int (node_count r)"
    using remove_rec_counts [OF k rr] inv by (simp_all add: invariant_def)
  ultimately show ?thesis by (simp add: invariant_def remove_def rr)
qed

lemma snd_exec:
  "snd (exec (Insert word f) t) = insert_trie word f t"
  "snd (exec (Remove word) t) = snd (remove word t)"
  "snd (exec (Contains word) t) = t"
  "snd (exec (Complete pre k) t) = t"
  "snd (exec Stats t) = t"
  "snd (exec Items t) = t"
  by (simp_all add: stats_def split: prod.splits)

lemma invariant_exec: "invariant t \<Longrightarrow> invariant (snd (exec c t))"
  by (cases c) (simp_all add: snd_exec invariant_remove invariant_insert_trie del: exec.simps)

lemma invariant_run: "invariant t \<Longrightarrow> invariant (run cs t)"
  by (induction cs arbitrary: t) (simp_all add: invariant_exec)

lemma exec_keeps_word:
  "contains t word \<Longrightarrow> c \<noteq> Remove word \<Longrightarrow> contains (snd (exec c t)) word"
proof (cases c)
  case (Insert x f)
  assume "contains t word"
  then show ?thesis by (simp add: Insert snd_exec contains_weight_of weight_of_insert_trie del: exec.simps)
next
  case (Remove x)
  assume "contains t word" "c \<noteq> Remove word"
  then have "weight_of (snd (remove x t)) word \<noteq> None"
    by (simp add: Remove contains_weight_of weight_of_remove)
  then show ?thesis by (simp add: Remove snd_exec contains_weight_of del: exec.simps)
qed (simp_all add: snd_exec del: exec.simps)

lemma run_keeps_word:
  "contains t word \<Longrightarrow> Remove word \<notin> set cs \<Longrightarrow> contains (run cs t) word"
proof (induction cs arbitrary: t)
  case Nil
  then show ?case by simp
next
  case (Cons c cs)
  have "contains (snd (exec c t)) word"
    using Cons.prems by (intro exec_keeps_word) auto
  then show ?case using Cons by simp
qed

lemma keys_ok_insert_all: "keys_ok (root_node t) \<Longrightarrow> keys_ok (root_node (insert_all ps t))"
  by (induction ps arbitrary: t) (simp_all add: insert_trie_root insert_walk_keys_ok)

lemma weight_of_insert_all:
  "weight_of (insert_all ps t) x =
     (case map_of (rev ps) x of None \<Rightarrow> weight_of t x | Some f \<Rightarrow> Some f)"
proof (induction ps arbitrary: t)
  case Nil
  then show ?case by simp
next
  case (Cons p ps)
  show ?case
    by (cases p) (auto simp: Cons.IH weight_of_insert_trie map_add_def map_of_append split: option.splits)
qed

lemma weight_of_init: "weight_of init x = None"
  by (simp add: weight_of_def init_def)

lemma weight_of_rebuild:
  "distinct (map fst ps) \<Longrightarrow> weight_of (rebuild ps) = map_of ps"
proof
  fix x
  assume d: "distinct (map fst ps)"
  have "map_of (rev ps) = map_of ps"
    using d by (intro map_of_inject_set [THEN iffD2]) (simp_all add: rev_map [symmetric])
  then show "weight_of (rebuild ps) x = map_of ps x"
    by (simp add: rebuild_def weight_of_insert_all weight_of_init split: option.splits)
qed

lemma keys_ok_rebuild: "keys_ok (root_node (rebuild ps))"
  by (simp add: rebuild_def keys_ok_insert_all init_def)

lemma items_heap: "items t = map (\<lambda>e. (snd e, - fst e)) (heap_of t [])"
  by (simp add: items_def heap_of_def items_dfs_dfs)

lemma items_mem:
  "keys_ok (root_node t) \<Longrightarrow> ((u, f) \<in> set (items t)) = (weight_of t u = Some f)"
proof -
  assume k: "keys_ok (root_node t)"
  have "((u, f) \<in> set (items t)) = ((- f, u) \<in> set (heap_of t []))"
    by (force simp: items_heap)
  then show ?thesis by (simp add: heap_of_mem [OF k])
qed

lemma items_distinct: "keys_ok (root_node t) \<Longrightarrow> distinct (map fst (items t))"
  using heap_of_distinct [of t "[]"] by (simp add: items_heap comp_def)

lemma weight_of_rebuild_items:
  "keys_ok (root_node t) \<Longrightarrow> weight_of (rebuild (items t)) = weight_of t"
proof
  fix x
  assume k: "keys_ok (root_node t)"
  have "map_of (items t) x = weight_of t x"
  proof (cases "weight_of t x")
    case None
    then have "x \<notin> fst ` set (items t)" using items_mem [OF k] by auto
    then show ?thesis using None by (simp add: map_of_eq_None_iff)
  next
    case (Some f)
    then have "(x, f) \<in> set (items t)" using items_mem [OF k] by simp
    then show ?thesis using Some items_distinct [OF k] by simp
  qed
  then show "weight_of (rebuild (items t)) x = weight_of t x"
    by (simp add: weight_of_rebuild [OF items_distinct [OF k]])
qed

subsection \<open>The reading methods leave the store alone\<close>

lemma load_Some: "load r s = Some (ob, s1) \<Longrightarrow> map_of (objs s) r = Some ob \<and> s1 = s"
  by (auto simp: load_def split: option.splits)

lemma load_eq: "map_of (objs s) r = Some ob \<Longrightarrow> load r s = Some (ob, s)"
  by (simp add: load_def)

lemma seek_frame: "seek node pre s = Some (r, s1) \<Longrightarrow> s1 = s"
proof (induction pre arbitrary: node s)
  case Nil
  then show ?case by simp
next
  case (Cons c cs)
  then show ?case
    by (auto split: option.splits prod.splits dest!: load_Some)
qed

lemma dfs_m_frame: "dfs_m fuel n path hs = Some hs' \<Longrightarrow> snd hs' = snd hs"
  and dfs_loop_frame: "dfs_loop fuel n keys path hs = Some hs' \<Longrightarrow> snd hs' = snd hs"
proof (induction fuel n path hs and fuel n keys path hs arbitrary: hs' and hs'
    rule: dfs_m_dfs_loop.induct)
  case (1 n path hs)
  then show ?case by simp
next
  case (2 fuel n path heap s)
  from "2.prems" obtain ob s1 where l: "load n s = Some (ob, s1)"
    and r: "dfs_loop fuel n (map fst (o_children ob)) path
        (if o_is_word ob then heap @ [(- o_freq ob, path)] else heap, s1) = Some hs'"
    by (auto split: option.splits prod.splits)
  have "snd hs' = s1" using "2.IH" [OF l refl r] by simp
  then show ?case using load_Some [OF l] by simp
next
  case (3 fuel n path hs)
  then show ?case by simp
next
  case (4 fuel n ch rest path heap s)
  from "4.prems" obtain ob s1 nxt hs1 where l: "load n s = Some (ob, s1)"
    and m: "map_of (o_children ob) ch = Some nxt"
    and d: "dfs_m fuel nxt (path @ [ch]) (heap, s1) = Some hs1"
    and r: "dfs_loop fuel n rest path hs1 = Some hs'"
    by (auto split: option.splits prod.splits)
  have "snd hs1 = s1" using "4.IH"(1) [OF l refl m d] by simp
  moreover have "snd hs' = snd hs1" using "4.IH"(2) [OF l refl m d r] .
  ultimately show ?case using load_Some [OF l] by simp
qed

lemma height_m_frame: "height_m fuel node s = Some (h, s') \<Longrightarrow> s' = s"
  and heights_frame: "heights fuel cs s = Some (hs, s') \<Longrightarrow> s' = s"
proof (induction fuel node s and fuel cs s arbitrary: h s' and hs s' rule: height_m_heights.induct)
  case (1 node s)
  then show ?case by simp
next
  case (2 fuel node s)
  from "2.prems" obtain ob s1 where l: "load node s = Some (ob, s1)"
    by (auto split: option.splits prod.splits)
  have s1: "s1 = s" using load_Some [OF l] by simp
  show ?case
  proof (cases "o_children ob = []")
    case True
    then show ?thesis using "2.prems" l s1 by simp
  next
    case False
    with "2.prems" l obtain hs where r: "heights fuel (map snd (o_children ob)) s1 = Some (hs, s')"
      by (auto split: option.splits prod.splits)
    show ?thesis using "2.IH" [OF l refl False r] s1 by simp
  qed
next
  case (3 fuel s)
  then show ?case by simp
next
  case (4 fuel c cs s)
  from "4.prems" obtain h1 s1 hs1 where a: "height_m fuel c s = Some (h1, s1)"
    and b: "heights fuel cs s1 = Some (hs1, s')"
    by (auto split: option.splits prod.splits)
  have "s1 = s" by (rule "4.IH"(1) [OF a])
  moreover have "s' = s1" by (rule "4.IH"(2) [OF a refl b])
  ultimately show ?case by simp
qed

lemma items_dfs_m_frame: "items_dfs_m fuel node path rs = Some rs' \<Longrightarrow> snd rs' = snd rs"
  and items_loop_frame: "items_loop fuel ps path rs = Some rs' \<Longrightarrow> snd rs' = snd rs"
proof (induction fuel node path rs and fuel ps path rs arbitrary: rs' and rs'
    rule: items_dfs_m_items_loop.induct)
  case (1 node path rs)
  then show ?case by simp
next
  case (2 fuel node path result s)
  from "2.prems" obtain ob s1 where l: "load node s = Some (ob, s1)"
    and r: "items_loop fuel (o_children ob) path
        (if o_is_word ob then result @ [(path, o_freq ob)] else result, s1) = Some rs'"
    by (auto split: option.splits prod.splits)
  have "snd rs' = s1" using "2.IH" [OF l refl r] by simp
  then show ?case using load_Some [OF l] by simp
next
  case (3 fuel path rs)
  then show ?case by simp
next
  case (4 fuel p rest path rs)
  from "4.prems" obtain rs1 where d: "items_dfs_m fuel (snd p) (path @ [fst p]) rs = Some rs1"
    and r: "items_loop fuel rest path rs1 = Some rs'"
    by (auto split: option.splits)
  have "snd rs1 = snd rs" by (rule "4.IH"(1) [OF d])
  moreover have "snd rs' = snd rs1" by (rule "4.IH"(2) [OF d r])
  ultimately show ?case by simp
qed

lemma complete_m_frame: "complete_m fuel pre k s = Some (r, s') \<Longrightarrow> s' = s"
proof -
  assume a: "complete_m fuel pre k s = Some (r, s')"
  then obtain x s1 where sk: "seek (self_root s) pre s = Some (x, s1)"
    by (auto simp: complete_m_def split: option.splits prod.splits)
  have s1: "s1 = s" by (rule seek_frame [OF sk])
  show ?thesis
  proof (cases x)
    case None
    then show ?thesis using a sk s1 by (simp add: complete_m_def)
  next
    case (Some node)
    with a sk obtain heap where d: "dfs_m fuel node pre ([], s1) = Some (heap, s')"
      by (auto simp: complete_m_def split: option.splits prod.splits)
    show ?thesis using dfs_m_frame [OF d] s1 by simp
  qed
qed

lemma stats_m_frame: "stats_m fuel s = Some (r, s') \<Longrightarrow> s' = s"
  by (auto simp: stats_m_def split: option.splits prod.splits dest: height_m_frame)

lemma items_m_frame: "items_m fuel s = Some (r, s') \<Longrightarrow> s' = s"
  using items_dfs_m_frame [of fuel "self_root s" "[]" "([], s)" "(r, s')"]
  by (simp add: items_m_def)

subsection \<open>On a store that is a trie, the reading methods return the answers of the model\<close>

lemma represents_obj:
  assumes "represents m r n"
  obtains ob where "map_of m r = Some ob" "o_is_word ob = is_word n" "o_freq ob = freq n"
    "distinct (map fst (children n))"
    "list_all2 (\<lambda>p q. fst p = fst q \<and> represents m (snd p) (snd q)) (o_children ob) (children n)"
  using assms by (cases n) (auto split: option.splits)

lemma list_all2_keys:
  "list_all2 (\<lambda>p q. fst p = fst q \<and> P (snd p) (snd q)) xs ys \<Longrightarrow> map fst xs = map fst ys"
  by (induction rule: list_all2_induct) simp_all

lemma map_of_related:
  "list_all2 (\<lambda>p q. fst p = fst q \<and> P (snd p) (snd q)) xs ys \<Longrightarrow>
     (case map_of xs c of
        None \<Rightarrow> map_of ys c = None
      | Some a \<Rightarrow> \<exists>m. map_of ys c = Some m \<and> P a m)"
  by (induction rule: list_all2_induct) (auto split: option.splits)

lemma seek_represents:
  "represents (objs s) r n \<Longrightarrow>
     (case descend n pre of
        None \<Rightarrow> seek r pre s = Some (None, s)
      | Some n' \<Rightarrow> \<exists>b. seek r pre s = Some (Some b, s) \<and> represents (objs s) b n')"
proof (induction pre arbitrary: r n)
  case Nil
  then show ?case by simp
next
  case (Cons c cs)
  from Cons.prems obtain ob where ob: "map_of (objs s) r = Some ob"
    and rel: "list_all2 (\<lambda>p q. fst p = fst q \<and> represents (objs s) (snd p) (snd q))
        (o_children ob) (children n)"
    by (rule represents_obj)
  note l = load_eq [OF ob]
  show ?case
  proof (cases "map_of (o_children ob) c")
    case None
    then have "map_of (children n) c = None"
      using map_of_related [OF rel, of c] by simp
    then show ?thesis using None l by simp
  next
    case (Some nxt)
    then obtain m where m: "map_of (children n) c = Some m" "represents (objs s) nxt m"
      using map_of_related [OF rel, of c] by auto
    show ?thesis using Cons.IH [OF m(2)] Some m(1) l by (cases "descend m cs") auto
  qed
qed

lemma height_sel:
  "height n = (if children n = [] then 1 else 1 + Max (set (map (\<lambda>p. height (snd p)) (children n))))"
  by (cases n) simp

lemma height_child: "q \<in> set (children n) \<Longrightarrow> height (snd q) < height n"
proof -
  assume q: "q \<in> set (children n)"
  then have "height (snd q) \<in> set (map (\<lambda>p. height (snd p)) (children n))" by simp
  then have "height (snd q) \<le> Max (set (map (\<lambda>p. height (snd p)) (children n)))"
    by (intro Max_ge) simp_all
  moreover have "children n \<noteq> []" using q by auto
  ultimately show ?thesis by (simp add: height_sel [of n])
qed

lemma height_pos: "0 < height n"
  by (simp add: height_sel [of n])

lemma height_descend: "descend n pre = Some n' \<Longrightarrow> height n' \<le> height n"
proof (induction pre arbitrary: n)
  case Nil
  then show ?case by simp
next
  case (Cons c cs)
  from Cons.prems obtain m where m: "map_of (children n) c = Some m" "descend m cs = Some n'"
    by (auto split: option.splits)
  have "(c, m) \<in> set (children n)" using m(1) by (rule map_of_SomeD)
  then have "height m < height n" using height_child [of "(c, m)" n] by simp
  then show ?case using Cons.IH [OF m(2)] by simp
qed

lemma dfs_sel:
  "dfs n path = (if is_word n then [(- freq n, path)] else []) @
     concat (map (\<lambda>p. dfs (snd p) (path @ [fst p])) (children n))"
  by (cases n) simp

lemma items_dfs_sel:
  "items_dfs n path = (if is_word n then [(path, freq n)] else []) @
     concat (map (\<lambda>p. items_dfs (snd p) (path @ [fst p])) (children n))"
  by (cases n) simp

lemma dfs_loop_represents:
  assumes "map_of (objs s) r = Some ob"
    and "list_all2 (\<lambda>p q. fst p = fst q \<and>
          (\<forall>path h. dfs_m fuel (snd p) path (h, s) = Some (h @ dfs (snd q) path, s))) ps qs"
    and "\<And>p. p \<in> set ps \<Longrightarrow> map_of (o_children ob) (fst p) = Some (snd p)"
  shows "dfs_loop fuel r (map fst ps) path (h, s) =
    Some (h @ concat (map (\<lambda>q. dfs (snd q) (path @ [fst q])) qs), s)"
  using assms(2,3)
proof (induction arbitrary: h rule: list_all2_induct)
  case Nil
  then show ?case by simp
next
  case (Cons p ps q qs)
  have look: "map_of (o_children ob) (fst p) = Some (snd p)" using Cons.prems by simp
  have call: "dfs_m fuel (snd p) (path @ [fst p]) (h, s) = Some (h @ dfs (snd q) (path @ [fst q]), s)"
    using Cons.hyps(1) by simp
  have "dfs_loop fuel r (map fst ps) path (h @ dfs (snd q) (path @ [fst q]), s) =
      Some ((h @ dfs (snd q) (path @ [fst q])) @ concat (map (\<lambda>q. dfs (snd q) (path @ [fst q])) qs), s)"
    by (rule Cons.IH) (simp add: Cons.prems)
  then show ?case using look call load_eq [OF assms(1)] by simp
qed

lemma dfs_m_represents:
  "represents (objs s) r n \<Longrightarrow> height n \<le> fuel \<Longrightarrow>
     dfs_m fuel r path (h, s) = Some (h @ dfs n path, s)"
proof (induction n arbitrary: fuel r path h rule: node_induct)
  case (TrieNode cs w f)
  let ?n = "TrieNode cs w f"
  from TrieNode.prems(1) obtain ob where ob: "map_of (objs s) r = Some ob"
    and flags: "o_is_word ob = w" "o_freq ob = f"
    and d: "distinct (map fst cs)"
    and rel: "list_all2 (\<lambda>p q. fst p = fst q \<and> represents (objs s) (snd p) (snd q)) (o_children ob) cs"
    by (rule represents_obj [of "objs s" r ?n]) simp
  obtain fuel' where fuel: "fuel = Suc fuel'"
    using TrieNode.prems(2) height_pos [of ?n] by (cases fuel) simp_all
  have keys: "map fst (o_children ob) = map fst cs" by (rule list_all2_keys [OF rel])
  have rel': "list_all2 (\<lambda>p q. fst p = fst q \<and>
      (\<forall>path h. dfs_m fuel' (snd p) path (h, s) = Some (h @ dfs (snd q) path, s))) (o_children ob) cs"
  proof (rule list.rel_mono_strong [OF rel])
    fix p q
    assume q: "q \<in> set cs" and pq: "fst p = fst q \<and> represents (objs s) (snd p) (snd q)"
    have "height (snd q) < height ?n" using height_child [of q ?n] q by simp
    then have "height (snd q) \<le> fuel'" using TrieNode.prems(2) fuel by simp
    then have "dfs_m fuel' (snd p) path h = Some (fst h @ dfs (snd q) path, s)" if "snd h = s" for path h
      using TrieNode.IH [of "fst q" "snd q" "snd p" fuel' path "fst h"] q pq that
      by (cases h) simp
    then show "fst p = fst q \<and>
        (\<forall>path h. dfs_m fuel' (snd p) path (h, s) = Some (h @ dfs (snd q) path, s))"
      using pq by simp
  qed
  have d': "distinct (map fst (o_children ob))" using d keys by simp
  have look: "map_of (o_children ob) (fst p) = Some (snd p)" if "p \<in> set (o_children ob)" for p
    using that by (simp add: map_of_eq_Some_iff [OF d'])
  have "dfs_loop fuel' r (map fst (o_children ob)) path (h @ (if w then [(- f, path)] else []), s) =
      Some ((h @ (if w then [(- f, path)] else [])) @
        concat (map (\<lambda>q. dfs (snd q) (path @ [fst q])) cs), s)"
    by (rule dfs_loop_represents [OF ob rel' look])
  then show ?case using load_eq [OF ob] flags by (cases w) (simp_all add: fuel)
qed

lemma items_loop_represents:
  assumes "list_all2 (\<lambda>p q. fst p = fst q \<and>
          (\<forall>path h. items_dfs_m fuel (snd p) path (h, s) = Some (h @ items_dfs (snd q) path, s))) ps qs"
  shows "items_loop fuel ps path (h, s) =
    Some (h @ concat (map (\<lambda>q. items_dfs (snd q) (path @ [fst q])) qs), s)"
  using assms
proof (induction arbitrary: h rule: list_all2_induct)
  case Nil
  then show ?case by simp
next
  case (Cons p ps q qs)
  have call: "items_dfs_m fuel (snd p) (path @ [fst p]) (h, s) =
      Some (h @ items_dfs (snd q) (path @ [fst q]), s)"
    using Cons.hyps(1) by simp
  show ?case using call Cons.IH [of "h @ items_dfs (snd q) (path @ [fst q])"] by simp
qed

lemma items_dfs_m_represents:
  "represents (objs s) r n \<Longrightarrow> height n \<le> fuel \<Longrightarrow>
     items_dfs_m fuel r path (h, s) = Some (h @ items_dfs n path, s)"
proof (induction n arbitrary: fuel r path h rule: node_induct)
  case (TrieNode cs w f)
  let ?n = "TrieNode cs w f"
  from TrieNode.prems(1) obtain ob where ob: "map_of (objs s) r = Some ob"
    and flags: "o_is_word ob = w" "o_freq ob = f"
    and rel: "list_all2 (\<lambda>p q. fst p = fst q \<and> represents (objs s) (snd p) (snd q)) (o_children ob) cs"
    by (rule represents_obj [of "objs s" r ?n]) simp
  obtain fuel' where fuel: "fuel = Suc fuel'"
    using TrieNode.prems(2) height_pos [of ?n] by (cases fuel) simp_all
  have rel': "list_all2 (\<lambda>p q. fst p = fst q \<and>
      (\<forall>path h. items_dfs_m fuel' (snd p) path (h, s) = Some (h @ items_dfs (snd q) path, s)))
      (o_children ob) cs"
  proof (rule list.rel_mono_strong [OF rel])
    fix p q
    assume q: "q \<in> set cs" and pq: "fst p = fst q \<and> represents (objs s) (snd p) (snd q)"
    have "height (snd q) < height ?n" using height_child [of q ?n] q by simp
    then have "height (snd q) \<le> fuel'" using TrieNode.prems(2) fuel by simp
    then have "items_dfs_m fuel' (snd p) path (h, s) = Some (h @ items_dfs (snd q) path, s)" for path h
      using TrieNode.IH [of "fst q" "snd q" "snd p" fuel' path h] q pq by simp
    then show "fst p = fst q \<and>
        (\<forall>path h. items_dfs_m fuel' (snd p) path (h, s) = Some (h @ items_dfs (snd q) path, s))"
      using pq by simp
  qed
  have "items_loop fuel' (o_children ob) path (h @ (if w then [(path, f)] else []), s) =
      Some ((h @ (if w then [(path, f)] else [])) @
        concat (map (\<lambda>q. items_dfs (snd q) (path @ [fst q])) cs), s)"
    by (rule items_loop_represents [OF rel'])
  then show ?case using load_eq [OF ob] flags by (cases w) (simp_all add: fuel)
qed

lemma heights_represents:
  assumes "list_all2 (\<lambda>p q. fst p = fst q \<and> height_m fuel (snd p) s = Some (height (snd q), s)) ps qs"
  shows "heights fuel (map snd ps) s = Some (map (\<lambda>q. height (snd q)) qs, s)"
  using assms by (induction rule: list_all2_induct) simp_all

lemma height_m_represents:
  "represents (objs s) r n \<Longrightarrow> height n \<le> fuel \<Longrightarrow> height_m fuel r s = Some (height n, s)"
proof (induction n arbitrary: fuel r rule: node_induct)
  case (TrieNode cs w f)
  let ?n = "TrieNode cs w f"
  from TrieNode.prems(1) obtain ob where ob: "map_of (objs s) r = Some ob"
    and rel: "list_all2 (\<lambda>p q. fst p = fst q \<and> represents (objs s) (snd p) (snd q)) (o_children ob) cs"
    by (rule represents_obj [of "objs s" r ?n]) simp
  obtain fuel' where fuel: "fuel = Suc fuel'"
    using TrieNode.prems(2) height_pos [of ?n] by (cases fuel) simp_all
  have rel': "list_all2 (\<lambda>p q. fst p = fst q \<and> height_m fuel' (snd p) s = Some (height (snd q), s))
      (o_children ob) cs"
  proof (rule list.rel_mono_strong [OF rel])
    fix p q
    assume q: "q \<in> set cs" and pq: "fst p = fst q \<and> represents (objs s) (snd p) (snd q)"
    have "height (snd q) < height ?n" using height_child [of q ?n] q by simp
    then have "height (snd q) \<le> fuel'" using TrieNode.prems(2) fuel by simp
    then show "fst p = fst q \<and> height_m fuel' (snd p) s = Some (height (snd q), s)"
      using TrieNode.IH [of "fst q" "snd q" "snd p" fuel'] q pq by simp
  qed
  have empty: "(o_children ob = []) = (cs = [])"
    using list_all2_lengthD [OF rel] by auto
  show ?case
    using load_eq [OF ob] heights_represents [OF rel'] empty by (simp add: fuel)
qed

lemma complete_m_represents:
  assumes "represents (objs s) (self_root s) n" and "height n \<le> fuel"
  shows "complete_m fuel pre k s = Some (complete_trie (as_trie n s) pre k, s)"
proof (cases "descend n pre")
  case None
  then have "seek (self_root s) pre s = Some (None, s)"
    using seek_represents [OF assms(1), of pre] by simp
  then show ?thesis using None by (simp add: complete_m_def complete_trie_def as_trie_def)
next
  case (Some n')
  then obtain b where b: "seek (self_root s) pre s = Some (Some b, s)" "represents (objs s) b n'"
    using seek_represents [OF assms(1), of pre] by auto
  have "height n' \<le> fuel" using height_descend [OF Some] assms(2) by simp
  then have "dfs_m fuel b pre ([], s) = Some ([] @ dfs n' pre, s)"
    by (rule dfs_m_represents [OF b(2)])
  then show ?thesis using Some b(1) by (simp add: complete_m_def complete_trie_def as_trie_def)
qed

lemma stats_m_represents:
  assumes "represents (objs s) (self_root s) n" and "height n \<le> fuel"
  shows "stats_m fuel s = Some (stats (as_trie n s), s)"
  using height_m_represents [OF assms] by (simp add: stats_m_def stats_def as_trie_def)

lemma items_m_represents:
  assumes "represents (objs s) (self_root s) n" and "height n \<le> fuel"
  shows "items_m fuel s = Some (items (as_trie n s), s)"
  using items_dfs_m_represents [OF assms, of "[]" "[]"] by (simp add: items_m_def items_def as_trie_def)

subsection \<open>The answer of complete\<close>

lemma slice_to_is_take: "\<exists>j. slice_to k xs = take j xs"
  by (auto simp: slice_to_def)

lemma set_slice_to: "set (slice_to k xs) \<subseteq> set xs"
  by (auto simp: slice_to_def dest: in_set_takeD)

lemma complete_trie_length_le: "0 \<le> k \<Longrightarrow> length (complete_trie t pre k) \<le> nat k"
  by (simp add: complete_trie_heap slice_to_def)

lemma complete_trie_mem:
  assumes "keys_ok (root_node t)" "u \<in> set (complete_trie t pre k)"
  shows "prefix pre u \<and> contains t u"
proof -
  from assms(2) obtain nf where "(nf, u) \<in> set (slice_to k (sort (heap_of t pre)))"
    by (auto simp: complete_trie_heap)
  then have "(nf, u) \<in> set (heap_of t pre)" using set_slice_to by fastforce
  then show ?thesis by (simp add: heap_of_mem [OF assms(1)] contains_weight_of)
qed

lemma complete_trie_sorted:
  assumes "keys_ok (root_node t)"
  shows "sorted_wrt (ranks_before t) (complete_trie t pre k)"
proof -
  let ?xs = "heap_of t pre"
  obtain j where j: "slice_to k (sort ?xs) = take j (sort ?xs)"
    using slice_to_is_take by blast
  have "distinct ?xs" using heap_of_distinct [OF assms, of pre] by (simp add: distinct_map)
  then have "sorted_wrt (<) (sort ?xs)" by (simp add: strict_sorted_iff)
  then have "sorted_wrt (<) (take j (sort ?xs))" by (rule sorted_wrt_take)
  moreover have "ranks_before t (snd a) (snd b)"
    if "a \<in> set (take j (sort ?xs))" "b \<in> set (take j (sort ?xs))" "a < b" for a b
  proof -
    have "a \<in> set ?xs" "b \<in> set ?xs" using that(1,2) by (auto dest: in_set_takeD)
    then have "weight_of t (snd a) = Some (- fst a)" "weight_of t (snd b) = Some (- fst b)"
      using heap_of_mem [OF assms, of "fst a" "snd a" pre] heap_of_mem [OF assms, of "fst b" "snd b" pre]
      by simp_all
    moreover have "fst a < fst b \<or> (fst a = fst b \<and> snd a < snd b)"
      using that(3) by (auto simp: less_prod_def)
    ultimately show ?thesis by (auto simp: ranks_before_def)
  qed
  ultimately have "sorted_wrt (\<lambda>a b. ranks_before t (snd a) (snd b)) (take j (sort ?xs))"
    by (rule sorted_wrt_mono_rel [rotated])
  then show ?thesis by (simp add: complete_trie_heap j sorted_wrt_map)
qed

lemma match_count_card:
  assumes "keys_ok (root_node t)"
  shows "match_count t pre = card {u. contains t u \<and> prefix pre u}"
proof -
  have "set (map snd (heap_of t pre)) = {u. contains t u \<and> prefix pre u}"
  proof (rule set_eqI)
    fix u
    have "(u \<in> set (map snd (heap_of t pre))) = (\<exists>nf. (nf, u) \<in> set (heap_of t pre))"
      by force
    also have "\<dots> = (\<exists>nf. prefix pre u \<and> weight_of t u = Some (- nf))"
      by (simp add: heap_of_mem [OF assms])
    also have "\<dots> = (prefix pre u \<and> weight_of t u \<noteq> None)"
      by (metis minus_minus not_Some_eq)
    finally show "(u \<in> set (map snd (heap_of t pre))) = (u \<in> {u. contains t u \<and> prefix pre u})"
      by (auto simp: contains_weight_of)
  qed
  then have "card {u. contains t u \<and> prefix pre u} = length (map snd (heap_of t pre))"
    using distinct_card [OF heap_of_distinct [OF assms, of pre]] by simp
  then show ?thesis by (simp add: match_count_def)
qed

lemma complete_trie_length:
  "0 \<le> k \<Longrightarrow> length (complete_trie t pre k) = min (nat k) (match_count t pre)"
  by (simp add: complete_trie_heap slice_to_def match_count_def min.commute)

lemma complete_trie_absent: "descend (root_node t) pre = None \<Longrightarrow> complete_trie t pre k = []"
  by (simp add: complete_trie_def)

lemma complete_trie_zero: "complete_trie t pre 0 = []"
  by (simp add: complete_trie_heap slice_to_def)

text \<open>
  C1.  For a non-negative \<open>k\<close>, \<open>complete(prefix, k)\<close> returns at most \<open>k\<close> words; every
  returned word starts with the prefix (and is a stored word); the answer is sorted by
  weight descending, equal weights by the word ascending; its length is the smaller of
  \<open>k\<close> and the number of stored words with that prefix; a prefix that leads nowhere gives
  the empty list, and so does \<open>k = 0\<close>.
\<close>

theorem complete_trie_top_k:
  assumes "keys_ok (root_node t)" and "0 \<le> k"
  shows "length (complete_trie t pre k) \<le> nat k \<and>
    (\<forall>u \<in> set (complete_trie t pre k). prefix pre u \<and> contains t u) \<and>
    sorted_wrt (ranks_before t) (complete_trie t pre k) \<and>
    length (complete_trie t pre k) = min (nat k) (card {u. contains t u \<and> prefix pre u}) \<and>
    (descend (root_node t) pre = None \<longrightarrow> complete_trie t pre k = []) \<and>
    complete_trie t pre 0 = []"
proof (intro conjI ballI impI)
  show "length (complete_trie t pre k) \<le> nat k"
    by (rule complete_trie_length_le [OF assms(2)])
  show "prefix pre u" "contains t u" if "u \<in> set (complete_trie t pre k)" for u
    using complete_trie_mem [OF assms(1) that] by simp_all
  show "sorted_wrt (ranks_before t) (complete_trie t pre k)"
    by (rule complete_trie_sorted [OF assms(1)])
  show "length (complete_trie t pre k) = min (nat k) (card {u. contains t u \<and> prefix pre u})"
    using complete_trie_length [OF assms(2), of t pre] match_count_card [OF assms(1), of pre] by simp
  show "complete_trie t pre k = []" if "descend (root_node t) pre = None"
    by (rule complete_trie_absent [OF that])
  show "complete_trie t pre 0 = []"
    by (rule complete_trie_zero)
qed

theorem complete_trie_top_k_witness:
  "keys_ok (root_node scenario) \<and> (0::int) \<le> 2 \<and>
   complete_trie scenario ''ca'' 2 = [''car'', ''cart''] \<and>
   length (complete_trie scenario ''ca'' 2) \<le> nat 2 \<and>
   sorted_wrt (ranks_before scenario) (complete_trie scenario ''ca'' 2) \<and>
   length (complete_trie scenario ''ca'' 2) =
     min (nat 2) (card {u. contains scenario u \<and> prefix ''ca'' u})"
proof -
  have k: "keys_ok (root_node scenario)" by code_simp
  have e: "complete_trie scenario ''ca'' 2 = [''car'', ''cart'']" by code_simp
  show ?thesis
    using k e complete_trie_top_k [OF k, of 2 "''ca''"] by simp
qed

text \<open>
  C2.  When \<open>contains(w)\<close> is false, \<open>remove(w)\<close> returns false and the trie afterwards
  is the trie before: the same nodes with the same flags and weights, the same counters.
\<close>

theorem remove_absent_unchanged: "\<not> contains t word \<Longrightarrow> remove word t = (False, t)"
  by (rule remove_absent_eq)

theorem remove_absent_unchanged_witness:
  "\<not> contains scenario ''ca'' \<and> remove ''ca'' scenario = (False, scenario)"
proof -
  have h: "\<not> contains scenario ''ca''" by code_simp
  show ?thesis using h remove_absent_unchanged [OF h] by simp
qed

text \<open>
  C3.  After any sequence of calls on a fresh trie, \<open>_nodes\<close> is the number of nodes
  reachable from the root (the root included), \<open>_words\<close> is the number of reachable
  word nodes, and no node below the root is a dangling leaf (not a word, no child).
  The keys of every dict are distinct there, so each child counted is one a lookup reaches.
\<close>

theorem counters_exact:
  "keys_ok (root_node (run cs init)) \<and>
   nodes (run cs init) = int (node_count (root_node (run cs init))) \<and>
   words (run cs init) = int (word_count (root_node (run cs init))) \<and>
   no_dangling (root_node (run cs init))"
  using invariant_run [OF invariant_init, of cs] by (simp add: invariant_def)

theorem counters_exact_witness:
  "nodes (run [Insert ''dog'' 1, Insert ''do'' 2, Remove ''dog''] init) = 3 \<and>
   node_count (root_node (run [Insert ''dog'' 1, Insert ''do'' 2, Remove ''dog''] init)) = 3 \<and>
   words (run [Insert ''dog'' 1, Insert ''do'' 2, Remove ''dog''] init) = 1 \<and>
   word_count (root_node (run [Insert ''dog'' 1, Insert ''do'' 2, Remove ''dog''] init)) = 1 \<and>
   no_dangling (root_node (run [Insert ''dog'' 1, Insert ''do'' 2, Remove ''dog''] init))"
proof -
  have "nodes (run [Insert ''dog'' 1, Insert ''do'' 2, Remove ''dog''] init) = 3"
    "words (run [Insert ''dog'' 1, Insert ''do'' 2, Remove ''dog''] init) = 1"
    by code_simp+
  then show ?thesis
    using counters_exact [of "[Insert ''dog'' 1, Insert ''do'' 2, Remove ''dog'']"] by simp
qed

text \<open>
  C4.  \<open>insert(w, f)\<close> on a stored word overwrites its weight with \<open>f\<close> and leaves both
  counters as they are; on a word that is not stored it makes the word stored, with
  weight \<open>f\<close>, and adds exactly one to \<open>_words\<close>.
\<close>

theorem insert_trie_existing_or_new:
  "(contains t word \<longrightarrow>
      weight_of (insert_trie word f t) word = Some f \<and>
      words (insert_trie word f t) = words t \<and>
      nodes (insert_trie word f t) = nodes t) \<and>
   (\<not> contains t word \<longrightarrow>
      contains (insert_trie word f t) word \<and>
      weight_of (insert_trie word f t) word = Some f \<and>
      words (insert_trie word f t) = words t + 1)"
  by (simp add: insert_trie_present insert_trie_absent contains_weight_of weight_of_insert_trie)

theorem insert_trie_existing_or_new_witness:
  "contains scenario ''cat'' \<and>
   weight_of (insert_trie ''cat'' 7 scenario) ''cat'' = Some 7 \<and>
   words (insert_trie ''cat'' 7 scenario) = words scenario \<and>
   nodes (insert_trie ''cat'' 7 scenario) = nodes scenario \<and>
   \<not> contains scenario ''dog'' \<and>
   contains (insert_trie ''dog'' 1 scenario) ''dog'' \<and>
   weight_of (insert_trie ''dog'' 1 scenario) ''dog'' = Some 1 \<and>
   words (insert_trie ''dog'' 1 scenario) = words scenario + 1"
proof -
  have h: "contains scenario ''cat''" "\<not> contains scenario ''dog''" by code_simp+
  show ?thesis
    using h insert_trie_existing_or_new [of scenario "''cat''" 7]
      insert_trie_existing_or_new [of scenario "''dog''" 1]
    by simp
qed

text \<open>
  C5.  Right after \<open>insert(w, f)\<close> the word is contained, and it stays contained through
  any further calls (inserts of any word, removes of other words, \<open>contains\<close>,
  \<open>complete\<close>, \<open>stats\<close>, \<open>items\<close>) as long as none of them is \<open>remove(w)\<close>.
\<close>

theorem contains_until_removed:
  "Remove word \<notin> set cs \<Longrightarrow> contains (run cs (insert_trie word f t)) word"
  by (rule run_keeps_word) (simp_all add: contains_weight_of weight_of_insert_trie)

theorem contains_until_removed_witness:
  "Remove ''car'' \<notin> set [Insert ''cart'' 1, Remove ''cart'', Remove ''ca'', Complete ''c'' 3, Stats, Items] \<and>
   contains (run [Insert ''cart'' 1, Remove ''cart'', Remove ''ca'', Complete ''c'' 3, Stats, Items]
     (insert_trie ''car'' 2 init)) ''car''"
proof -
  have h: "Remove ''car'' \<notin> set [Insert ''cart'' 1, Remove ''cart'', Remove ''ca'', Complete ''c'' 3, Stats, Items]"
    by simp
  show ?thesis using h contains_until_removed [OF h] by simp
qed

text \<open>
  C6.  Two tries built from the same pairs (distinct words) in two different orders
  give the same answer to every \<open>complete(p, k)\<close>.
\<close>

theorem complete_trie_insertion_order:
  assumes "distinct (map fst ps)" and "mset qs = mset ps"
  shows "complete_trie (rebuild ps) pre k = complete_trie (rebuild qs) pre k"
proof -
  have "mset (map fst qs) = mset (map fst ps)" using assms(2) by simp
  then have dq: "distinct (map fst qs)"
    using assms(1) by (metis mset_eq_imp_distinct_iff)
  have "set qs = set ps" using assms(2) by (rule mset_eq_setD)
  then have "map_of ps = map_of qs"
    using assms(1) dq by (simp add: map_of_inject_set)
  then have "weight_of (rebuild ps) = weight_of (rebuild qs)"
    by (simp add: weight_of_rebuild assms(1) dq)
  then show ?thesis
    by (intro complete_trie_cong keys_ok_rebuild)
qed

theorem complete_trie_insertion_order_witness:
  "distinct (map fst [(''cat'', 5::real), (''car'', 9), (''cart'', 9)]) \<and>
   mset [(''cart'', 9::real), (''cat'', 5), (''car'', 9)] = mset [(''cat'', 5), (''car'', 9), (''cart'', 9)] \<and>
   complete_trie (rebuild [(''cat'', 5), (''car'', 9), (''cart'', 9)]) ''ca'' 2 =
   complete_trie (rebuild [(''cart'', 9), (''cat'', 5), (''car'', 9)]) ''ca'' 2"
proof -
  have d: "distinct (map fst [(''cat'', 5::real), (''car'', 9), (''cart'', 9)])" by simp
  have m: "mset [(''cart'', 9::real), (''cat'', 5), (''car'', 9)] = mset [(''cat'', 5), (''car'', 9), (''cart'', 9)]"
    by simp
  show ?thesis using d m complete_trie_insertion_order [OF d m, of "''ca''" 2] by simp
qed

text \<open>
  C7.  A fresh trie filled with the pairs of \<open>items()\<close> answers \<open>contains\<close> and
  \<open>complete\<close> as the trie the pairs came from.
\<close>

theorem items_rebuild_round_trip:
  assumes "keys_ok (root_node t)"
  shows "contains (rebuild (items t)) word = contains t word \<and>
    complete_trie (rebuild (items t)) pre k = complete_trie t pre k"
proof -
  have w: "weight_of (rebuild (items t)) = weight_of t"
    by (rule weight_of_rebuild_items [OF assms])
  have "complete_trie (rebuild (items t)) pre k = complete_trie t pre k"
    by (rule complete_trie_cong [OF keys_ok_rebuild assms w])
  then show ?thesis by (simp add: contains_weight_of w)
qed

theorem items_rebuild_round_trip_witness:
  "keys_ok (root_node scenario) \<and>
   items scenario = [(''cat'', 5), (''car'', 9), (''cart'', 9)] \<and>
   contains (rebuild (items scenario)) ''car'' = contains scenario ''car'' \<and>
   complete_trie (rebuild (items scenario)) ''c'' 2 = complete_trie scenario ''c'' 2"
proof -
  have k: "keys_ok (root_node scenario)" by code_simp
  have i: "items scenario = [(''cat'', 5), (''car'', 9), (''cart'', 9)]" by code_simp
  show ?thesis using k i items_rebuild_round_trip [OF k, of "''car''" "''c''" 2] by simp
qed

lemma node_count_pos: "1 \<le> node_count n"
  by (cases n) simp

text \<open>
  C8.  The empty word is a key like any other: \<open>insert("", f)\<close> makes the root a word,
  adds one to \<open>_words\<close> when the empty word was not stored and leaves \<open>_nodes\<close> alone; a
  \<open>remove("")\<close> after it returns true; and \<open>_nodes\<close> never falls below 1, whatever calls
  are made on a fresh trie.
\<close>

theorem empty_word_legal:
  "contains (insert_trie [] f t) [] \<and>
   is_word (root_node (insert_trie [] f t)) \<and>
   words (insert_trie [] f t) = (if contains t [] then words t else words t + 1) \<and>
   nodes (insert_trie [] f t) = nodes t \<and>
   fst (remove [] (insert_trie [] f t)) \<and>
   1 \<le> nodes (run cs init)"
proof -
  have "invariant (run cs init)" by (rule invariant_run [OF invariant_init])
  then have "nodes (run cs init) = int (node_count (root_node (run cs init)))"
    by (simp add: invariant_def)
  then have "1 \<le> nodes (run cs init)"
    using node_count_pos [of "root_node (run cs init)"] by simp
  moreover have "contains (insert_trie [] f t) []"
    by (simp add: contains_weight_of weight_of_insert_trie)
  moreover from this have "fst (remove [] (insert_trie [] f t))" by (simp add: remove_fst)
  ultimately show ?thesis
    by (simp add: insert_trie_def contains_def)
qed

theorem empty_word_legal_witness:
  "contains (insert_trie [] 4 scenario) [] \<and>
   words (insert_trie [] 4 scenario) = 4 \<and>
   nodes (insert_trie [] 4 scenario) = 6 \<and>
   fst (remove [] (insert_trie [] 4 scenario)) \<and>
   (1::int) \<le> nodes (run [Insert ''a'' 1, Remove ''a'', Remove [], Remove ''a''] init)"
proof -
  have "words scenario = 3" "nodes scenario = 6" "\<not> contains scenario []" by code_simp+
  then show ?thesis
    using empty_word_legal [of 4 scenario "[Insert ''a'' 1, Remove ''a'', Remove [], Remove ''a'']"]
    by simp
qed

text \<open>
  C9.  \<open>complete\<close>, \<open>stats\<close> and \<open>items\<close> leave the trie as it was.  On the store of
  objects: whatever the state and the arguments, a call that returns hands back the very
  state it was given (every object with its children, flag and weight, and both
  counters); and on every state that is a trie, a call whose recursion depth covers the
  height of the trie does return, with the answer the model computes for that trie.
\<close>

theorem queries_do_not_mutate:
  "(complete_m fuel pre k s = Some (r1, s1) \<longrightarrow> s1 = s) \<and>
   (stats_m fuel s = Some (r2, s2) \<longrightarrow> s2 = s) \<and>
   (items_m fuel s = Some (r3, s3) \<longrightarrow> s3 = s) \<and>
   (represents (objs s) (self_root s) n \<and> height n \<le> fuel \<longrightarrow>
      complete_m fuel pre k s = Some (complete_trie (as_trie n s) pre k, s) \<and>
      stats_m fuel s = Some (stats (as_trie n s), s) \<and>
      items_m fuel s = Some (items (as_trie n s), s))"
  using complete_m_frame [of fuel pre k s r1 s1] stats_m_frame [of fuel s r2 s2]
    items_m_frame [of fuel s r3 s3]
    complete_m_represents [of s n fuel pre k] stats_m_represents [of s n fuel]
    items_m_represents [of s n fuel]
  by blast

theorem queries_do_not_mutate_witness:
  "represents (objs scenario_memory) (self_root scenario_memory) (root_node scenario) \<and>
   height (root_node scenario) \<le> 5 \<and>
   complete_m 5 ''ca'' 2 scenario_memory = Some ([''car'', ''cart''], scenario_memory) \<and>
   stats_m 5 scenario_memory = Some ((3, 5, 6), scenario_memory) \<and>
   items_m 5 scenario_memory = Some ([(''cat'', 5), (''car'', 9), (''cart'', 9)], scenario_memory)"
proof -
  have r: "represents (objs scenario_memory) (self_root scenario_memory) (root_node scenario)"
    by code_simp
  have e: "complete_m 5 ''ca'' 2 scenario_memory = Some ([''car'', ''cart''], scenario_memory)"
    by code_simp
  have h: "height (root_node scenario) \<le> 5" by code_simp
  have t: "as_trie (root_node scenario) scenario_memory = scenario" by code_simp
  have c: "complete_trie scenario ''ca'' 2 = [''car'', ''cart'']"
    "stats scenario = (3, 5, 6)"
    "items scenario = [(''cat'', 5), (''car'', 9), (''cart'', 9)]"
    by code_simp+
  show ?thesis
    using r h e queries_do_not_mutate [of 5 "''ca''" 2 scenario_memory _ _ _ _ _ _ "root_node scenario"]
    by (simp add: t c)
qed

lemma take_Nil_length: "(take j xs = []) = (j = 0 \<or> length xs = 0)"
  by (simp add: take_eq_Nil)

text \<open>
  C10.  For a negative \<open>k\<close>, \<open>complete(prefix, k)\<close> is the whole sorted list of matches
  without its last \<open>-k\<close> entries; it is empty exactly when \<open>-k\<close> is at least the number
  of matches.
\<close>

theorem complete_trie_negative_k:
  assumes "k < 0"
  shows "complete_trie t pre k =
      take (match_count t pre - nat (- k)) (complete_trie t pre (int (match_count t pre))) \<and>
    complete_trie t pre (int (match_count t pre)) = map snd (sort (heap_of t pre)) \<and>
    (complete_trie t pre k = [] \<longleftrightarrow> match_count t pre \<le> nat (- k))"
proof -
  have full: "complete_trie t pre (int (match_count t pre)) = map snd (sort (heap_of t pre))"
    by (simp add: complete_trie_heap slice_to_def match_count_def)
  have n: "nat (int (length (heap_of t pre)) + k) = match_count t pre - nat (- k)"
    using assms by (simp add: match_count_def)
  have neg: "complete_trie t pre k = take (match_count t pre - nat (- k)) (map snd (sort (heap_of t pre)))"
    using assms by (simp add: complete_trie_heap slice_to_def n take_map)
  have len: "length (map snd (sort (heap_of t pre))) = match_count t pre"
    by (simp add: match_count_def)
  have "(complete_trie t pre k = []) = (match_count t pre \<le> nat (- k))"
    unfolding neg take_Nil_length len by auto
  then show ?thesis using full neg by simp
qed

theorem complete_trie_negative_k_witness:
  "(- 1 :: int) < 0 \<and> match_count scenario ''ca'' = 3 \<and>
   complete_trie scenario ''ca'' 3 = [''car'', ''cart'', ''cat''] \<and>
   complete_trie scenario ''ca'' (- 1) = [''car'', ''cart'']"
proof -
  have h: "(- 1 :: int) < 0" by simp
  have m: "match_count scenario ''ca'' = 3" by code_simp
  have e: "complete_trie scenario ''ca'' 3 = [''car'', ''cart'', ''cat'']" by code_simp
  show ?thesis
    using h m e complete_trie_negative_k [OF h, of scenario "''ca''"] by simp
qed

end
